theory Spec2Isabelle
  imports Complex_Main "HOL-Library.AList"
begin

section \<open>Objects and the heap\<close>

text \<open>
  The cache is built from JavaScript objects that point at each other, and one node object
  sits in two doubly linked lists at once. Object identity is modelled by addresses: the
  four sentinel objects have fixed addresses, and every node literal evaluated by
  \<open>set\<close> gets the next \<open>Obj n\<close>. JavaScript numbers are modelled as
  integers (capacities, millisecond clock readings) and naturals (counters); \<open>null\<close>
  and \<open>undefined\<close> are \<open>None\<close>.
\<close>

datatype ref = Head | Tail | TimeHead | TimeTail | Obj nat

datatype error = Error string | TypeError

record ('k, 'v) node =
  key :: "'k option"
  val :: "'v option"
  prev :: "ref option"
  "next" :: "ref option"
  timestamp :: "int option"
  timePrev :: "ref option"
  timeNext :: "ref option"

type_synonym ('k, 'v) heap = "ref \<Rightarrow> ('k, 'v) node"

text \<open>The object literal \<open>{}\<close>: every field is undefined.\<close>

definition emptyObj :: "('k, 'v) node" where
  "emptyObj = \<lparr>key = None, val = None, prev = None, next = None,
               timestamp = None, timePrev = None, timeNext = None\<rparr>"

text \<open>Field assignments \<open>r.f = v\<close>.\<close>

definition set_val :: "ref \<Rightarrow> 'v option \<Rightarrow> ('k, 'v) heap \<Rightarrow> ('k, 'v) heap" where
  "set_val r v h = h(r := (h r)\<lparr>val := v\<rparr>)"

definition set_prev :: "ref \<Rightarrow> ref option \<Rightarrow> ('k, 'v) heap \<Rightarrow> ('k, 'v) heap" where
  "set_prev r v h = h(r := (h r)\<lparr>prev := v\<rparr>)"

definition set_next :: "ref \<Rightarrow> ref option \<Rightarrow> ('k, 'v) heap \<Rightarrow> ('k, 'v) heap" where
  "set_next r v h = h(r := (h r)\<lparr>next := v\<rparr>)"

definition set_timestamp :: "ref \<Rightarrow> int option \<Rightarrow> ('k, 'v) heap \<Rightarrow> ('k, 'v) heap" where
  "set_timestamp r v h = h(r := (h r)\<lparr>timestamp := v\<rparr>)"

definition set_timePrev :: "ref \<Rightarrow> ref option \<Rightarrow> ('k, 'v) heap \<Rightarrow> ('k, 'v) heap" where
  "set_timePrev r v h = h(r := (h r)\<lparr>timePrev := v\<rparr>)"

definition set_timeNext :: "ref \<Rightarrow> ref option \<Rightarrow> ('k, 'v) heap \<Rightarrow> ('k, 'v) heap" where
  "set_timeNext r v h = h(r := (h r)\<lparr>timeNext := v\<rparr>)"

section \<open>FastCache (fast-cache.ts)\<close>

text \<open>
  \<open>cache\<close> is the \<open>Map\<close> from keys to node objects, kept in insertion order as
  a JavaScript \<open>Map\<close> is; \<open>nextRef\<close> is the address the next node literal gets.
\<close>

record ('k, 'v) fastCache =
  cache :: "('k \<times> ref) list"
  heap :: "('k, 'v) heap"
  nextRef :: nat
  maxSize :: int
  hits :: nat
  misses :: nat

text \<open>The constructor (fast-cache.ts, lines 17--30).\<close>

definition FastCache_new :: "int \<Rightarrow> error + ('k, 'v) fastCache" where
  "FastCache_new n =
     (if n \<le> 0 then Inl (Error ''Cache size must be positive'')
      else Inr \<lparr>cache = [],
                heap = set_prev Tail (Some Head) (set_next Head (Some Tail) (\<lambda>_. emptyObj)),
                nextRef = 0, maxSize = n, hits = 0, misses = 0\<rparr>)"

text \<open>
  The list operations (lines 139--167). The non-null assertion in \<open>this.head.next!\<close>
  is erased at run time: assigning through a null pointer throws a \<open>TypeError\<close>, the
  \<open>Inl TypeError\<close> branch.
\<close>

definition addToHead ::
  "ref \<Rightarrow> ('k, 'v, 'z) fastCache_scheme \<Rightarrow> error + ('k, 'v, 'z) fastCache_scheme" where
  "addToHead node s =
     (let h1 = set_prev node (Some Head) (heap s);
          h2 = set_next node (next (h1 Head)) h1
      in case next (h2 Head) of
           None \<Rightarrow> Inl TypeError
         | Some hn \<Rightarrow>
             Inr (s\<lparr>heap := set_next Head (Some node) (set_prev hn (Some node) h2)\<rparr>))"

definition removeNode ::
  "ref \<Rightarrow> ('k, 'v, 'z) fastCache_scheme \<Rightarrow> ('k, 'v, 'z) fastCache_scheme" where
  "removeNode node s =
     (let h = heap s;
          h1 = (case prev (h node) of
                  Some p \<Rightarrow> set_next p (next (h node)) h
                | None \<Rightarrow> h);
          h2 = (case next (h1 node) of
                  Some n \<Rightarrow> set_prev n (prev (h1 node)) h1
                | None \<Rightarrow> h1)
      in s\<lparr>heap := h2\<rparr>)"

definition moveToHead ::
  "ref \<Rightarrow> ('k, 'v, 'z) fastCache_scheme \<Rightarrow> error + ('k, 'v, 'z) fastCache_scheme" where
  "moveToHead node s = addToHead node (removeNode node s)"

definition removeTail ::
  "('k, 'v, 'z) fastCache_scheme \<Rightarrow> ('k, 'v, 'z) fastCache_scheme" where
  "removeTail s =
     (case prev (heap s Tail) of
        None \<Rightarrow> s
      | Some lastNode \<Rightarrow>
          if lastNode \<noteq> Head then
            removeNode lastNode
              (s\<lparr>cache := (case key (heap s lastNode) of
                              Some k \<Rightarrow> AList.delete k (cache s)
                            | None \<Rightarrow> cache s)\<rparr>)
          else s)"

text \<open>\<open>get\<close>, \<open>set\<close>, \<open>delete\<close>, \<open>clear\<close>, \<open>has\<close>, \<open>size\<close>, \<open>capacity\<close> (lines 32--105).\<close>

definition FastCache_get ::
  "'k \<Rightarrow> ('k, 'v, 'z) fastCache_scheme \<Rightarrow> error + ('v option \<times> ('k, 'v, 'z) fastCache_scheme)" where
  "FastCache_get k s =
     (case map_of (cache s) k of
        None \<Rightarrow> Inr (None, s\<lparr>misses := misses s + 1\<rparr>)
      | Some node \<Rightarrow>
          (case moveToHead node s of
             Inl e \<Rightarrow> Inl e
           | Inr s1 \<Rightarrow> Inr (val (heap s1 node), s1\<lparr>hits := hits s1 + 1\<rparr>)))"

definition FastCache_set ::
  "'k \<Rightarrow> 'v \<Rightarrow> ('k, 'v, 'z) fastCache_scheme \<Rightarrow> error + ('k, 'v, 'z) fastCache_scheme" where
  "FastCache_set k v s =
     (case map_of (cache s) k of
        Some existingNode \<Rightarrow>
          moveToHead existingNode (s\<lparr>heap := set_val existingNode (Some v) (heap s)\<rparr>)
      | None \<Rightarrow>
          (let newNode = Obj (nextRef s);
               s1 = s\<lparr>heap := (heap s)(newNode :=
                            \<lparr>key = Some k, val = Some v, prev = None, next = None,
                             timestamp = None, timePrev = None, timeNext = None\<rparr>),
                       nextRef := Suc (nextRef s)\<rparr>;
               s2 = (if int (length (cache s1)) \<ge> maxSize s1 then removeTail s1 else s1)
           in addToHead newNode (s2\<lparr>cache := AList.update k newNode (cache s2)\<rparr>)))"

definition FastCache_delete ::
  "'k \<Rightarrow> ('k, 'v, 'z) fastCache_scheme \<Rightarrow> bool \<times> ('k, 'v, 'z) fastCache_scheme" where
  "FastCache_delete k s =
     (case map_of (cache s) k of
        None \<Rightarrow> (False, s)
      | Some node \<Rightarrow> (True, removeNode node (s\<lparr>cache := AList.delete k (cache s)\<rparr>)))"

definition FastCache_clear ::
  "('k, 'v, 'z) fastCache_scheme \<Rightarrow> ('k, 'v, 'z) fastCache_scheme" where
  "FastCache_clear s =
     s\<lparr>cache := [],
       heap := set_prev Tail (Some Head) (set_next Head (Some Tail) (heap s)),
       hits := 0, misses := 0\<rparr>"

definition FastCache_has :: "'k \<Rightarrow> ('k, 'v, 'z) fastCache_scheme \<Rightarrow> bool" where
  "FastCache_has k s = (map_of (cache s) k \<noteq> None)"

definition size_of :: "('k, 'v, 'z) fastCache_scheme \<Rightarrow> nat" where
  "size_of s = length (cache s)"

definition capacity :: "('k, 'v, 'z) fastCache_scheme \<Rightarrow> int" where
  "capacity s = maxSize s"

text \<open>\<open>getStats\<close> (lines 126--135); the quotient \<open>hits / total\<close> is taken in the reals.\<close>

record cacheStats =
  stats_hits :: nat
  stats_misses :: nat
  stats_hitRate :: real
  stats_size :: nat
  stats_capacity :: int
  stats_expired :: "nat option"

definition FastCache_getStats :: "('k, 'v, 'z) fastCache_scheme \<Rightarrow> cacheStats" where
  "FastCache_getStats s =
     (let total = hits s + misses s
      in \<lparr>stats_hits = hits s,
          stats_misses = misses s,
          stats_hitRate = (if total > 0 then real (hits s) / real total else 0),
          stats_size = size_of s,
          stats_capacity = capacity s,
          stats_expired = None\<rparr>)"

section \<open>FastCacheWithTTL (fast-cache-ttl.ts)\<close>

text \<open>
  The subclass extends the state of \<open>FastCache\<close>; the methods it inherits are the
  definitions above, which work on every extension of the base record. \<open>cleanupTimer\<close>
  holds the interval handed to \<open>setInterval\<close>. Every method that reads the clock takes
  the value of \<open>Date.now()\<close> as its first argument.
\<close>

record cacheOptions =
  opt_maxSize :: int
  opt_ttl :: "int option"
  opt_autoCleanup :: "bool option"
  opt_cleanupInterval :: "int option"

record ('k, 'v) fastCacheWithTTL = "('k, 'v) fastCache" +
  ttl :: int
  autoCleanup :: bool
  cleanupTimer :: "int option"
  expired :: nat

text \<open>The constructor (fast-cache-ttl.ts, lines 25--45).\<close>

definition FastCacheWithTTL_new :: "cacheOptions \<Rightarrow> error + ('k, 'v) fastCacheWithTTL" where
  "FastCacheWithTTL_new options =
     (case FastCache_new (opt_maxSize options) of
        Inl e \<Rightarrow> Inl e
      | Inr (b :: ('k, 'v) fastCache) \<Rightarrow>
          if opt_ttl options \<noteq> None \<and> the (opt_ttl options) \<le> 0
          then Inl (Error ''TTL must be positive'')
          else
            (let t = (case opt_ttl options of Some x \<Rightarrow> x | None \<Rightarrow> 0);
                 ac = (case opt_autoCleanup options of Some x \<Rightarrow> x | None \<Rightarrow> False);
                 h = set_timePrev TimeTail (Some TimeHead)
                       (set_timeNext TimeHead (Some TimeTail) (heap b));
                 timer = (if ac \<and> t > 0
                          then Some (case opt_cleanupInterval options of
                                       Some i \<Rightarrow> i | None \<Rightarrow> t)
                          else None)
             in Inr \<lparr>cache = cache b, heap = h, nextRef = nextRef b, maxSize = maxSize b,
                      hits = hits b, misses = misses b,
                      ttl = t, autoCleanup = ac, cleanupTimer = timer, expired = 0\<rparr>))"

text \<open>\<open>isExpired\<close> and the operations on the time list (lines 188--217).\<close>

definition isExpired :: "ref \<Rightarrow> int \<Rightarrow> ('k, 'v) fastCacheWithTTL \<Rightarrow> bool" where
  "isExpired node now s =
     (if ttl s = 0 \<or> timestamp (heap s node) = None then False
      else now - the (timestamp (heap s node)) > ttl s)"

definition addToTimeListTail ::
  "ref \<Rightarrow> ('k, 'v) fastCacheWithTTL \<Rightarrow> error + ('k, 'v) fastCacheWithTTL" where
  "addToTimeListTail node s =
     (case timePrev (heap s TimeTail) of
        None \<Rightarrow> Inl TypeError
      | Some p \<Rightarrow>
          (let h1 = set_timeNext p (Some node) (heap s);
               h2 = set_timePrev node (Some p) h1;
               h3 = set_timeNext node (Some TimeTail) h2
           in Inr (s\<lparr>heap := set_timePrev TimeTail (Some node) h3\<rparr>)))"

definition removeFromTimeList ::
  "ref \<Rightarrow> ('k, 'v) fastCacheWithTTL \<Rightarrow> ('k, 'v) fastCacheWithTTL" where
  "removeFromTimeList node s =
     (let h = heap s;
          h1 = (case timePrev (h node) of
                  Some p \<Rightarrow> set_timeNext p (timeNext (h node)) h
                | None \<Rightarrow> h);
          h2 = (case timeNext (h1 node) of
                  Some n \<Rightarrow> set_timePrev n (timePrev (h1 node)) h1
                | None \<Rightarrow> h1)
      in s\<lparr>heap := h2\<rparr>)"

definition moveToTimeListTail ::
  "ref \<Rightarrow> ('k, 'v) fastCacheWithTTL \<Rightarrow> error + ('k, 'v) fastCacheWithTTL" where
  "moveToTimeListTail node s = addToTimeListTail node (removeFromTimeList node s)"

text \<open>
  The overridden methods (lines 47--152). \<open>this.delete\<close> inside \<open>get\<close>, \<open>has\<close> and
  \<open>cleanup\<close> is the override; \<open>super.get\<close>, \<open>super.set\<close>, \<open>super.delete\<close> and
  \<open>super.clear\<close> are the definitions of the base class.
\<close>

definition FastCacheWithTTL_delete ::
  "'k \<Rightarrow> ('k, 'v) fastCacheWithTTL \<Rightarrow> bool \<times> ('k, 'v) fastCacheWithTTL" where
  "FastCacheWithTTL_delete k s =
     (case map_of (cache s) k of
        None \<Rightarrow> (False, s)
      | Some node \<Rightarrow> FastCache_delete k (removeFromTimeList node s))"

definition FastCacheWithTTL_get ::
  "int \<Rightarrow> 'k \<Rightarrow> ('k, 'v) fastCacheWithTTL \<Rightarrow> error + ('v option \<times> ('k, 'v) fastCacheWithTTL)" where
  "FastCacheWithTTL_get now k s =
     (case map_of (cache s) k of
        None \<Rightarrow> Inr (None, s\<lparr>misses := misses s + 1\<rparr>)
      | Some node \<Rightarrow>
          if isExpired node now s then
            (let s1 = snd (FastCacheWithTTL_delete k s);
                 s2 = s1\<lparr>expired := expired s1 + 1\<rparr>
             in Inr (None, s2\<lparr>misses := misses s2 + 1\<rparr>))
          else FastCache_get k s)"

definition FastCacheWithTTL_set ::
  "int \<Rightarrow> 'k \<Rightarrow> 'v \<Rightarrow> ('k, 'v) fastCacheWithTTL \<Rightarrow> error + ('k, 'v) fastCacheWithTTL" where
  "FastCacheWithTTL_set clock k v s =
     (let existingNode = map_of (cache s) k;
          now = (if ttl s > 0 then clock else 0)
      in case FastCache_set k v s of
           Inl e \<Rightarrow> Inl e
         | Inr s1 \<Rightarrow>
             (case map_of (cache s1) k of
                None \<Rightarrow> Inl TypeError
              | Some node \<Rightarrow>
                  (let s2 = s1\<lparr>heap := set_timestamp node (Some now) (heap s1)\<rparr>
                   in if existingNode \<noteq> None then moveToTimeListTail node s2
                      else addToTimeListTail node s2)))"

definition FastCacheWithTTL_clear :: "('k, 'v) fastCacheWithTTL \<Rightarrow> ('k, 'v) fastCacheWithTTL" where
  "FastCacheWithTTL_clear s =
     (let s1 = FastCache_clear s
      in s1\<lparr>heap := set_timePrev TimeTail (Some TimeHead)
                       (set_timeNext TimeHead (Some TimeTail) (heap s1)),
            expired := 0\<rparr>)"

definition FastCacheWithTTL_has ::
  "int \<Rightarrow> 'k \<Rightarrow> ('k, 'v) fastCacheWithTTL \<Rightarrow> bool \<times> ('k, 'v) fastCacheWithTTL" where
  "FastCacheWithTTL_has now k s =
     (case map_of (cache s) k of
        None \<Rightarrow> (False, s)
      | Some node \<Rightarrow>
          if isExpired node now s then
            (let s1 = snd (FastCacheWithTTL_delete k s)
             in (False, s1\<lparr>expired := expired s1 + 1\<rparr>))
          else (True, s))"

definition FastCacheWithTTL_getStats :: "('k, 'v) fastCacheWithTTL \<Rightarrow> cacheStats" where
  "FastCacheWithTTL_getStats s = (FastCache_getStats s)\<lparr>stats_expired := Some (expired s)\<rparr>"

text \<open>
  The loop of \<open>cleanup\<close>. Its only variables besides the cache are \<open>removedCount\<close>
  and \<open>currentNode\<close>, and \<open>currentNode\<close> is \<open>this.timeHead.timeNext\<close> at every
  test of the loop condition, so the loop state is the count and the cache. The loop has
  no bound of its own: not returning is the value \<open>None\<close>.
\<close>

partial_function (option) cleanupLoop ::
  "int \<Rightarrow> nat \<Rightarrow> ('k, 'v) fastCacheWithTTL \<Rightarrow> (nat \<times> ('k, 'v) fastCacheWithTTL) option" where
  "cleanupLoop now removedCount s =
     (case timeNext (heap s TimeHead) of
        None \<Rightarrow> Some (removedCount, s)
      | Some currentNode \<Rightarrow>
          if currentNode = TimeTail then Some (removedCount, s)
          else if isExpired currentNode now s then
            (let s1 = (case key (heap s currentNode) of
                         Some k \<Rightarrow> snd (FastCacheWithTTL_delete k s)
                       | None \<Rightarrow> s)
             in cleanupLoop now (removedCount + 1) (s1\<lparr>expired := expired s1 + 1\<rparr>))
          else Some (removedCount, s))"

definition cleanup ::
  "int \<Rightarrow> ('k, 'v) fastCacheWithTTL \<Rightarrow> (nat \<times> ('k, 'v) fastCacheWithTTL) option" where
  "cleanup now s = (if ttl s = 0 then Some (0, s) else cleanupLoop now 0 s)"

section \<open>Runs of operations\<close>

datatype ('k, 'v) op = Set 'k 'v | Get 'k | Delete 'k | Has 'k | Clear

datatype 'v result = RUnit | RValue "'v option" | RBool bool

fun step ::
  "('k, 'v) op \<Rightarrow> ('k, 'v, 'z) fastCache_scheme
     \<Rightarrow> error + ('v result \<times> ('k, 'v, 'z) fastCache_scheme)" where
  "step (Set k v) s = (case FastCache_set k v s of Inl e \<Rightarrow> Inl e | Inr s1 \<Rightarrow> Inr (RUnit, s1))"
| "step (Get k) s = (case FastCache_get k s of Inl e \<Rightarrow> Inl e | Inr (r, s1) \<Rightarrow> Inr (RValue r, s1))"
| "step (Delete k) s = (case FastCache_delete k s of (b, s1) \<Rightarrow> Inr (RBool b, s1))"
| "step (Has k) s = Inr (RBool (FastCache_has k s), s)"
| "step Clear s = Inr (RUnit, FastCache_clear s)"

fun exec ::
  "('k, 'v) op list \<Rightarrow> ('k, 'v, 'z) fastCache_scheme
     \<Rightarrow> error + ('v result list \<times> ('k, 'v, 'z) fastCache_scheme)" where
  "exec [] s = Inr ([], s)"
| "exec (x # xs) s =
     (case step x s of
        Inl e \<Rightarrow> Inl e
      | Inr (r, s1) \<Rightarrow>
          (case exec xs s1 of
             Inl e \<Rightarrow> Inl e
           | Inr (rs, s2) \<Rightarrow> Inr (r # rs, s2)))"

datatype ('k, 'v) ttlOp =
  TSet int 'k 'v | TGet int 'k | TDelete 'k | THas int 'k | TClear | TCleanup int

datatype 'v outcome = Threw error | Diverged | Done 'v

fun ttlStep ::
  "('k, 'v) ttlOp \<Rightarrow> ('k, 'v) fastCacheWithTTL \<Rightarrow> ('k, 'v) fastCacheWithTTL outcome" where
  "ttlStep (TSet now k v) s =
     (case FastCacheWithTTL_set now k v s of Inl e \<Rightarrow> Threw e | Inr s1 \<Rightarrow> Done s1)"
| "ttlStep (TGet now k) s =
     (case FastCacheWithTTL_get now k s of Inl e \<Rightarrow> Threw e | Inr (r, s1) \<Rightarrow> Done s1)"
| "ttlStep (TDelete k) s = Done (snd (FastCacheWithTTL_delete k s))"
| "ttlStep (THas now k) s = Done (snd (FastCacheWithTTL_has now k s))"
| "ttlStep TClear s = Done (FastCacheWithTTL_clear s)"
| "ttlStep (TCleanup now) s =
     (case cleanup now s of None \<Rightarrow> Diverged | Some (n, s1) \<Rightarrow> Done s1)"

fun ttlExec ::
  "('k, 'v) ttlOp list \<Rightarrow> ('k, 'v) fastCacheWithTTL \<Rightarrow> ('k, 'v) fastCacheWithTTL outcome" where
  "ttlExec [] s = Done s"
| "ttlExec (x # xs) s =
     (case ttlStep x s of
        Threw e \<Rightarrow> Threw e
      | Diverged \<Rightarrow> Diverged
      | Done s1 \<Rightarrow> ttlExec xs s1)"

section \<open>Reading the two lists off the heap\<close>

text \<open>
  \<open>walk n nx a b\<close> follows the pointer \<open>nx\<close> from \<open>a\<close> and returns the objects
  strictly between \<open>a\<close> and \<open>b\<close>, or \<open>None\<close> when it meets a null pointer or does
  not reach \<open>b\<close> within \<open>n\<close> steps.
\<close>

fun walk :: "nat \<Rightarrow> (ref \<Rightarrow> ref option) \<Rightarrow> ref \<Rightarrow> ref \<Rightarrow> ref list option" where
  "walk 0 nx a b = None"
| "walk (Suc n) nx a b =
     (case nx a of
        None \<Rightarrow> None
      | Some x \<Rightarrow> if x = b then Some [] else map_option ((#) x) (walk n nx x b))"

definition lruList :: "('k, 'v, 'z) fastCache_scheme \<Rightarrow> ref list option" where
  "lruList s = walk (Suc (nextRef s)) (\<lambda>r. next (heap s r)) Head Tail"

definition timeList :: "('k, 'v, 'z) fastCache_scheme \<Rightarrow> ref list option" where
  "timeList s = walk (Suc (nextRef s)) (\<lambda>r. timeNext (heap s r)) TimeHead TimeTail"

definition keysOf :: "('k, 'v, 'z) fastCache_scheme \<Rightarrow> ref list \<Rightarrow> 'k option list" where
  "keysOf s rs = map (\<lambda>r. key (heap s r)) rs"

definition lruKeys :: "('k, 'v, 'z) fastCache_scheme \<Rightarrow> 'k option list option" where
  "lruKeys s = map_option (keysOf s) (lruList s)"

definition timeKeys :: "('k, 'v, 'z) fastCache_scheme \<Rightarrow> 'k option list option" where
  "timeKeys s = map_option (keysOf s) (timeList s)"

section \<open>Recorded hits and misses\<close>

text \<open>
  What a caller can count from the outside: a \<open>get\<close> that returned a value is a hit, a
  \<open>get\<close> that returned \<open>undefined\<close> is a miss, and \<open>clear\<close> starts the count again.
  \<open>recorded (h, m) es\<close> continues the count \<open>(h, m)\<close> over the operations \<open>es\<close>, each
  paired with its result.
\<close>

fun record1 :: "nat \<times> nat \<Rightarrow> ('k, 'v) op \<Rightarrow> 'v result \<Rightarrow> nat \<times> nat" where
  "record1 (h, m) (Get k) (RValue (Some v)) = (Suc h, m)"
| "record1 (h, m) (Get k) (RValue None) = (h, Suc m)"
| "record1 (h, m) Clear r = (0, 0)"
| "record1 (h, m) x r = (h, m)"

fun recorded :: "nat \<times> nat \<Rightarrow> (('k, 'v) op \<times> 'v result) list \<Rightarrow> nat \<times> nat" where
  "recorded hm [] = hm"
| "recorded hm ((x, r) # es) = recorded (record1 hm x r) es"

section \<open>The LRU contract as a list of entries\<close>

text \<open>
  The contract of the LRU core in the words of its description: the cache is a list of
  entries, most recently used first. A hit of \<open>get\<close> and every \<open>set\<close> put the entry
  at the front; a \<open>set\<close> of a new key at capacity first drops the last entry.
\<close>

definition spec_get :: "'k \<Rightarrow> ('k \<times> 'v) list \<Rightarrow> 'v option \<times> ('k \<times> 'v) list" where
  "spec_get k l =
     (case map_of l k of
        None \<Rightarrow> (None, l)
      | Some v \<Rightarrow> (Some v, (k, v) # AList.delete k l))"

definition spec_set :: "int \<Rightarrow> 'k \<Rightarrow> 'v \<Rightarrow> ('k \<times> 'v) list \<Rightarrow> ('k \<times> 'v) list" where
  "spec_set c k v l =
     (case map_of l k of
        Some _ \<Rightarrow> (k, v) # AList.delete k l
      | None \<Rightarrow> (k, v) # (if int (length l) \<ge> c then butlast l else l))"

fun spec_step :: "int \<Rightarrow> ('k, 'v) op \<Rightarrow> ('k \<times> 'v) list \<Rightarrow> 'v result \<times> ('k \<times> 'v) list" where
  "spec_step c (Set k v) l = (RUnit, spec_set c k v l)"
| "spec_step c (Get k) l = (RValue (fst (spec_get k l)), snd (spec_get k l))"
| "spec_step c (Delete k) l = (RBool (map_of l k \<noteq> None), AList.delete k l)"
| "spec_step c (Has k) l = (RBool (map_of l k \<noteq> None), l)"
| "spec_step c Clear l = (RUnit, [])"

fun spec_exec :: "int \<Rightarrow> ('k, 'v) op list \<Rightarrow> ('k \<times> 'v) list \<Rightarrow> 'v result list \<times> ('k \<times> 'v) list" where
  "spec_exec c [] l = ([], l)"
| "spec_exec c (x # xs) l =
     (case spec_step c x l of (r, l1) \<Rightarrow>
        (case spec_exec c xs l1 of (rs, l2) \<Rightarrow> (r # rs, l2)))"

section \<open>The history of uses\<close>

text \<open>
  A call uses a key when it is \<open>set\<close> or \<open>get\<close> on that key; \<open>has\<close>, \<open>delete\<close> and \<open>clear\<close> use
  none. \<open>lastUse ops k\<close> is the position in the call sequence \<open>ops\<close>, counted from 1, of the
  last call that uses \<open>k\<close>, and 0 when no call does: of two keys, the one with the smaller
  \<open>lastUse\<close> is the less recently used. It is read off the calls alone, not off the cache.
\<close>

fun uses :: "'k \<Rightarrow> ('k, 'v) op \<Rightarrow> bool" where
  "uses k (Set k' v) = (k' = k)"
| "uses k (Get k') = (k' = k)"
| "uses k (Delete k') = False"
| "uses k (Has k') = False"
| "uses k Clear = False"

definition lastUse :: "('k, 'v) op list \<Rightarrow> 'k \<Rightarrow> nat" where
  "lastUse ops k = length (dropWhile (\<lambda>x. \<not> uses k x) (rev ops))"

text \<open>The entries of the recency list of a state, from head to tail.\<close>

definition entry :: "('k, 'v, 'z) fastCache_scheme \<Rightarrow> ref \<Rightarrow> ('k \<times> 'v) option" where
  "entry s r =
     (case key (heap s r) of
        None \<Rightarrow> None
      | Some k \<Rightarrow> (case val (heap s r) of None \<Rightarrow> None | Some v \<Rightarrow> Some (k, v)))"

definition lruEntries :: "('k, 'v, 'z) fastCache_scheme \<Rightarrow> ('k \<times> 'v) list option" where
  "lruEntries s = (case lruList s of None \<Rightarrow> None | Some xs \<Rightarrow> those (map (entry s) xs))"

text \<open>The same for a node that is known to carry a key and a value.\<close>

definition ent :: "('k, 'v, 'z) fastCache_scheme \<Rightarrow> ref \<Rightarrow> 'k \<times> 'v" where
  "ent s r = (the (key (heap s r)), the (val (heap s r)))"

section \<open>Well-formed states\<close>

text \<open>
  \<open>dll nx pv p xs q\<close>: following \<open>nx\<close> from \<open>p\<close> visits exactly \<open>xs\<close> and then
  \<open>q\<close>, and \<open>pv\<close> leads back the same way.
\<close>

fun dll ::
  "(ref \<Rightarrow> ref option) \<Rightarrow> (ref \<Rightarrow> ref option) \<Rightarrow> ref \<Rightarrow> ref list \<Rightarrow> ref \<Rightarrow> bool" where
  "dll nx pv p [] q \<longleftrightarrow> nx p = Some q \<and> pv q = Some p"
| "dll nx pv p (x # xs) q \<longleftrightarrow> nx p = Some x \<and> pv x = Some p \<and> dll nx pv x xs q"

definition lruLinked :: "('k, 'v) heap \<Rightarrow> ref list \<Rightarrow> bool" where
  "lruLinked h xs \<longleftrightarrow> dll (\<lambda>r. next (h r)) (\<lambda>r. prev (h r)) Head xs Tail"

definition timeLinked :: "('k, 'v) heap \<Rightarrow> ref list \<Rightarrow> bool" where
  "timeLinked h ts \<longleftrightarrow> dll (\<lambda>r. timeNext (h r)) (\<lambda>r. timePrev (h r)) TimeHead ts TimeTail"

definition allocated :: "nat \<Rightarrow> ref list \<Rightarrow> bool" where
  "allocated n xs \<longleftrightarrow> list_all (\<lambda>r. case r of Obj i \<Rightarrow> i < n | _ \<Rightarrow> False) xs"

text \<open>
  \<open>lru_inv s xs\<close>: the recency list of \<open>s\<close> is \<open>xs\<close>, from most to least recently used,
  its nodes are exactly the nodes of the index, each under its own key, and the index holds
  at most \<open>maxSize\<close> entries.
\<close>

definition lru_inv :: "('k, 'v, 'z) fastCache_scheme \<Rightarrow> ref list \<Rightarrow> bool" where
  "lru_inv s xs \<longleftrightarrow>
     lruLinked (heap s) xs \<and> distinct xs \<and> allocated (nextRef s) xs \<and>
     distinct (map fst (cache s)) \<and> distinct (map snd (cache s)) \<and>
     set (map snd (cache s)) = set xs \<and>
     list_all (\<lambda>(k, r). key (heap s r) = Some k \<and> val (heap s r) \<noteq> None) (cache s) \<and>
     0 < maxSize s \<and> int (length (cache s)) \<le> maxSize s"

text \<open>
  \<open>ttl_inv s xs ts\<close>: on top of \<open>lru_inv\<close>, the time list of \<open>s\<close> is \<open>ts\<close>, from
  its head to its tail, it holds every node of the recency list, and every node of the
  recency list carries a timestamp.
\<close>

definition ttl_inv :: "('k, 'v) fastCacheWithTTL \<Rightarrow> ref list \<Rightarrow> ref list \<Rightarrow> bool" where
  "ttl_inv s xs ts \<longleftrightarrow>
     lru_inv s xs \<and> timeLinked (heap s) ts \<and> distinct ts \<and> allocated (nextRef s) ts \<and>
     list_all (\<lambda>r. r \<in> set ts \<and> timestamp (heap s r) \<noteq> None) xs"

text \<open>The timestamp of a node, for comparing positions in the time list.\<close>

definition stampOf :: "('k, 'v, 'z) fastCache_scheme \<Rightarrow> ref \<Rightarrow> int" where
  "stampOf s r = (case timestamp (heap s r) of Some t \<Rightarrow> t | None \<Rightarrow> 0)"

text \<open>
  Two heaps that differ at most in the \<open>prev\<close>/\<open>next\<close> fields (\<open>lruFrame\<close>), or at
  most in the \<open>timePrev\<close>/\<open>timeNext\<close> fields (\<open>timeFrame\<close>).
\<close>

definition lruFrame :: "('k, 'v) heap \<Rightarrow> ('k, 'v) heap \<Rightarrow> bool" where
  "lruFrame h h' \<longleftrightarrow>
     (\<forall>r. key (h' r) = key (h r) \<and> val (h' r) = val (h r) \<and> timestamp (h' r) = timestamp (h r) \<and>
          timePrev (h' r) = timePrev (h r) \<and> timeNext (h' r) = timeNext (h r))"

definition timeFrame :: "('k, 'v) heap \<Rightarrow> ('k, 'v) heap \<Rightarrow> bool" where
  "timeFrame h h' \<longleftrightarrow>
     (\<forall>r. key (h' r) = key (h r) \<and> val (h' r) = val (h r) \<and> timestamp (h' r) = timestamp (h r) \<and>
          prev (h' r) = prev (h r) \<and> next (h' r) = next (h r))"

section \<open>Properties of the linked lists and the invariants\<close>

lemma dll_append: "dll nx pv p (as @ x # bs) q \<longleftrightarrow> dll nx pv p as x \<and> dll nx pv x bs q"
  by (induction as arbitrary: p) auto

lemma dll_cong:
  "\<lbrakk>\<forall>r \<in> set (p # xs). nx r = nx' r; \<forall>r \<in> set (xs @ [q]). pv r = pv' r\<rbrakk>
   \<Longrightarrow> dll nx pv p xs q = dll nx' pv' p xs q"
  by (induction xs arbitrary: p) auto

lemma dll_first: "dll nx pv p xs q \<Longrightarrow> nx p = Some (hd (xs @ [q]))"
  by (cases xs) auto

lemma dll_last: "dll nx pv p xs q \<Longrightarrow> pv q = Some (last (p # xs))"
  by (induction xs arbitrary: p) auto

lemma dll_member:
  "dll nx pv p (as @ x # bs) q \<Longrightarrow> pv x = Some (last (p # as)) \<and> nx x = Some (hd (bs @ [q]))"
  using dll_append dll_first dll_last by metis

lemma dll_unlink:
  assumes "dll nx pv p (as @ x # bs) q"
    and "distinct (p # as @ x # bs @ [q])"
    and "nx' (last (p # as)) = Some (hd (bs @ [q]))"
    and "pv' (hd (bs @ [q])) = Some (last (p # as))"
    and "\<forall>r. r \<noteq> last (p # as) \<longrightarrow> nx' r = nx r"
    and "\<forall>r. r \<noteq> hd (bs @ [q]) \<longrightarrow> pv' r = pv r"
  shows "dll nx' pv' p (as @ bs) q"
  using assms
proof (induction as arbitrary: p)
  case Nil
  show ?case
  proof (cases bs)
    case Nil
    with Nil.prems show ?thesis by simp
  next
    case (Cons b bs')
    with Nil.prems have tl: "dll nx pv b bs' q" and nb: "p \<noteq> b" "p \<notin> set bs'" "b \<notin> set bs'" "b \<noteq> q"
      and n1: "nx' p = Some b" and p1: "pv' b = Some p"
      and fr: "\<forall>r. r \<noteq> p \<longrightarrow> nx' r = nx r" "\<forall>r. r \<noteq> b \<longrightarrow> pv' r = pv r"
      by auto
    have "dll nx' pv' b bs' q = dll nx pv b bs' q"
      by (rule dll_cong) (use nb fr in auto)
    with tl Cons n1 p1 show ?thesis by simp
  qed
next
  case (Cons a as')
  from Cons.prems(1,2) have d': "dll nx pv a (as' @ x # bs) q" and np: "nx p = Some a" and pa: "pv a = Some p"
    and dist': "distinct (a # as' @ x # bs @ [q])" by auto
  have lp: "last (a # as') \<noteq> p"
  proof -
    have "last (a # as') \<in> set (a # as')" by (rule last_in_set) simp
    with Cons.prems(2) show ?thesis by auto
  qed
  have ha: "hd (bs @ [q]) \<noteq> a" using Cons.prems(2) by (cases bs) auto
  have "dll nx' pv' a (as' @ bs) q"
    using Cons.prems(3-6) by (intro Cons.IH[OF d' dist']) simp_all
  moreover have "nx' p = Some a" using Cons.prems(5) lp np by simp
  moreover have "pv' a = Some p" using Cons.prems(6) ha pa by simp
  ultimately show ?case by simp
qed

lemma dll_add_head:
  assumes "dll nx pv p xs q" and "x \<notin> set (p # xs @ [q])" and "distinct (p # xs @ [q])"
    and "nx' p = Some x" and "nx' x = nx p" and "pv' x = Some p" and "pv' (hd (xs @ [q])) = Some x"
    and "\<forall>r. r \<noteq> p \<and> r \<noteq> x \<longrightarrow> nx' r = nx r"
    and "\<forall>r. r \<noteq> x \<and> r \<noteq> hd (xs @ [q]) \<longrightarrow> pv' r = pv r"
  shows "dll nx' pv' p (x # xs) q"
proof (cases xs)
  case Nil
  with assms show ?thesis by auto
next
  case (Cons y ys)
  with assms(1) have tl: "dll nx pv y ys q" and np: "nx p = Some y" by auto
  have "dll nx' pv' y ys q = dll nx pv y ys q"
  proof (rule dll_cong)
    show "\<forall>r\<in>set (y # ys). nx' r = nx r" using assms(2,3,8) Cons by auto
    show "\<forall>r\<in>set (ys @ [q]). pv' r = pv r" using assms(2,3,9) Cons by auto
  qed
  with tl np assms Cons show ?thesis by simp
qed

lemma dll_add_tail:
  assumes "dll nx pv p xs q" and "x \<notin> set (p # xs @ [q])" and "distinct (p # xs @ [q])"
    and "nx' (last (p # xs)) = Some x" and "nx' x = Some q"
    and "pv' x = Some (last (p # xs))" and "pv' q = Some x"
    and "\<forall>r. r \<noteq> last (p # xs) \<and> r \<noteq> x \<longrightarrow> nx' r = nx r"
    and "\<forall>r. r \<noteq> x \<and> r \<noteq> q \<longrightarrow> pv' r = pv r"
  shows "dll nx' pv' p (xs @ [x]) q"
  using assms
proof (induction xs arbitrary: p)
  case Nil
  then show ?case by auto
next
  case (Cons a as)
  have lp: "last (a # as) \<noteq> p"
  proof -
    have "last (a # as) \<in> set (a # as)" by (rule last_in_set) simp
    with Cons.prems(3) show ?thesis by auto
  qed
  have "dll nx' pv' a (as @ [x]) q"
    using Cons.prems by (intro Cons.IH) auto
  moreover have "nx' p = Some a" using Cons.prems lp by auto
  moreover have "pv' a = Some p" using Cons.prems by auto
  ultimately show ?case by simp
qed

lemma walk_dll:
  "\<lbrakk>dll nx pv p xs q; q \<notin> set xs; length xs < n\<rbrakk> \<Longrightarrow> walk n nx p q = Some xs"
proof (induction xs arbitrary: p n)
  case Nil
  then show ?case by (cases n) auto
next
  case (Cons a as)
  then show ?case by (cases n) auto
qed

lemma length_le_nextRef:
  assumes "distinct xs" and "\<forall>r \<in> set xs. \<exists>i < n. r = Obj i"
  shows "length xs \<le> n"
proof -
  have "set xs \<subseteq> Obj ` {..<n}" using assms(2) by auto
  then have "card (set xs) \<le> card (Obj ` {..<n})" by (intro card_mono) auto
  also have "\<dots> \<le> n" by (metis card_image_le card_lessThan finite_lessThan)
  finally show ?thesis using assms(1) by (simp add: distinct_card)
qed

lemmas setter_defs = set_val_def set_prev_def set_next_def set_timestamp_def
  set_timePrev_def set_timeNext_def

lemma get_set_next [simp]:
  "next (set_next a v h r) = (if r = a then v else next (h r))"
  "prev (set_next a v h r) = prev (h r)"
  "key (set_next a v h r) = key (h r)"
  "val (set_next a v h r) = val (h r)"
  "timestamp (set_next a v h r) = timestamp (h r)"
  "timePrev (set_next a v h r) = timePrev (h r)"
  "timeNext (set_next a v h r) = timeNext (h r)"
  by (simp_all add: set_next_def)

lemma get_set_prev [simp]:
  "prev (set_prev a v h r) = (if r = a then v else prev (h r))"
  "next (set_prev a v h r) = next (h r)"
  "key (set_prev a v h r) = key (h r)"
  "val (set_prev a v h r) = val (h r)"
  "timestamp (set_prev a v h r) = timestamp (h r)"
  "timePrev (set_prev a v h r) = timePrev (h r)"
  "timeNext (set_prev a v h r) = timeNext (h r)"
  by (simp_all add: set_prev_def)

lemma get_set_timeNext [simp]:
  "timeNext (set_timeNext a v h r) = (if r = a then v else timeNext (h r))"
  "timePrev (set_timeNext a v h r) = timePrev (h r)"
  "key (set_timeNext a v h r) = key (h r)"
  "val (set_timeNext a v h r) = val (h r)"
  "timestamp (set_timeNext a v h r) = timestamp (h r)"
  "prev (set_timeNext a v h r) = prev (h r)"
  "next (set_timeNext a v h r) = next (h r)"
  by (simp_all add: set_timeNext_def)

lemma get_set_timePrev [simp]:
  "timePrev (set_timePrev a v h r) = (if r = a then v else timePrev (h r))"
  "timeNext (set_timePrev a v h r) = timeNext (h r)"
  "key (set_timePrev a v h r) = key (h r)"
  "val (set_timePrev a v h r) = val (h r)"
  "timestamp (set_timePrev a v h r) = timestamp (h r)"
  "prev (set_timePrev a v h r) = prev (h r)"
  "next (set_timePrev a v h r) = next (h r)"
  by (simp_all add: set_timePrev_def)

lemma get_set_val [simp]:
  "val (set_val a v h r) = (if r = a then v else val (h r))"
  "key (set_val a v h r) = key (h r)"
  "timestamp (set_val a v h r) = timestamp (h r)"
  "prev (set_val a v h r) = prev (h r)"
  "next (set_val a v h r) = next (h r)"
  "timePrev (set_val a v h r) = timePrev (h r)"
  "timeNext (set_val a v h r) = timeNext (h r)"
  by (simp_all add: set_val_def)

lemma get_set_timestamp [simp]:
  "timestamp (set_timestamp a v h r) = (if r = a then v else timestamp (h r))"
  "key (set_timestamp a v h r) = key (h r)"
  "val (set_timestamp a v h r) = val (h r)"
  "prev (set_timestamp a v h r) = prev (h r)"
  "next (set_timestamp a v h r) = next (h r)"
  "timePrev (set_timestamp a v h r) = timePrev (h r)"
  "timeNext (set_timestamp a v h r) = timeNext (h r)"
  by (simp_all add: set_timestamp_def)

lemma allocated_iff: "allocated n xs \<longleftrightarrow> (\<forall>r \<in> set xs. \<exists>i < n. r = Obj i)"
proof -
  have "(case r of Obj i \<Rightarrow> i < n | _ \<Rightarrow> False) \<longleftrightarrow> (\<exists>i < n. r = Obj i)" for r
    by (cases r) auto
  then show ?thesis by (simp add: allocated_def list_all_iff)
qed

lemma allocated_sentinels:
  "allocated n xs \<Longrightarrow> Head \<notin> set xs \<and> Tail \<notin> set xs \<and> TimeHead \<notin> set xs \<and> TimeTail \<notin> set xs"
  by (auto simp: allocated_iff)

lemma allocated_fresh: "allocated n xs \<Longrightarrow> n \<le> m \<Longrightarrow> Obj m \<notin> set xs"
  by (auto simp: allocated_iff)

lemma allocated_mono: "allocated n xs \<Longrightarrow> n \<le> m \<Longrightarrow> allocated m xs"
  by (fastforce simp: allocated_iff)

lemma allocated_subset: "allocated n xs \<Longrightarrow> set ys \<subseteq> set xs \<Longrightarrow> allocated n ys"
  by (auto simp: allocated_iff)

lemma allocated_length: "distinct xs \<Longrightarrow> allocated n xs \<Longrightarrow> length xs \<le> n"
  by (rule length_le_nextRef) (auto simp: allocated_iff)

lemma lruFrame_refl [simp]: "lruFrame h h"
  by (simp add: lruFrame_def)

lemma timeFrame_refl [simp]: "timeFrame h h"
  by (simp add: timeFrame_def)

lemma lruFrame_trans: "lruFrame h h1 \<Longrightarrow> lruFrame h1 h2 \<Longrightarrow> lruFrame h h2"
  by (simp add: lruFrame_def)

lemma timeFrame_trans: "timeFrame h h1 \<Longrightarrow> timeFrame h1 h2 \<Longrightarrow> timeFrame h h2"
  by (simp add: timeFrame_def)

lemma lruFrame_setters [simp]:
  "lruFrame h (set_next a v h)" "lruFrame h (set_prev a v h)"
  by (simp_all add: lruFrame_def)

lemma timeFrame_setters [simp]:
  "timeFrame h (set_timeNext a v h)" "timeFrame h (set_timePrev a v h)"
  by (simp_all add: timeFrame_def)

lemma lruFrame_timeLinked: "lruFrame h h' \<Longrightarrow> timeLinked h' ts = timeLinked h ts"
  by (simp add: lruFrame_def timeLinked_def)

lemma timeFrame_lruLinked: "timeFrame h h' \<Longrightarrow> lruLinked h' xs = lruLinked h xs"
  by (simp add: timeFrame_def lruLinked_def)

subsection \<open>removeNode\<close>

lemma removeNode_fields [simp]:
  "cache (removeNode x s) = cache s" "nextRef (removeNode x s) = nextRef s"
  "maxSize (removeNode x s) = maxSize s" "hits (removeNode x s) = hits s"
  "misses (removeNode x s) = misses s" "fastCache.more (removeNode x s) = fastCache.more s"
  by (simp_all add: removeNode_def Let_def)

lemma removeNode_ttl_fields [simp]:
  "ttl (removeNode x t) = ttl t" "expired (removeNode x t) = expired t"
  "autoCleanup (removeNode x t) = autoCleanup t" "cleanupTimer (removeNode x t) = cleanupTimer t"
  by (simp_all add: removeNode_def Let_def)

lemma removeNode_frame [simp]: "lruFrame (heap s) (heap (removeNode x s))"
  by (simp add: removeNode_def Let_def lruFrame_def split: option.split)

lemma removeNode_linked:
  assumes l: "lruLinked (heap s) (as @ x # bs)"
    and d: "distinct (as @ x # bs)" and a: "allocated n (as @ x # bs)"
  shows "lruLinked (heap (removeNode x s)) (as @ bs)"
proof -
  let ?a = "last (Head # as)" and ?b = "hd (bs @ [Tail])"
  from allocated_sentinels[OF a] d have dist: "distinct (Head # as @ x # bs @ [Tail])" by auto
  from l have px: "prev (heap s x) = Some ?a" and nx: "next (heap s x) = Some ?b"
    using dll_member[of "\<lambda>r. next (heap s r)" "\<lambda>r. prev (heap s r)" Head as x bs Tail]
    by (simp_all add: lruLinked_def)
  have "?a \<in> set (Head # as)" by (rule last_in_set) simp
  with dist have ax: "?a \<noteq> x" by auto
  have hp: "heap (removeNode x s) = set_prev ?b (Some ?a) (set_next ?a (Some ?b) (heap s))"
    using px nx ax by (simp add: removeNode_def Let_def)
  show ?thesis
    unfolding lruLinked_def
    by (rule dll_unlink[OF l[unfolded lruLinked_def] dist]) (simp_all add: hp)
qed

subsection \<open>addToHead\<close>

lemma addToHead_linked:
  assumes l: "lruLinked (heap s) xs" and d: "distinct xs" and a: "allocated n xs"
    and x: "x = Obj i" and nx: "x \<notin> set xs"
  shows "\<exists>h. addToHead x s = Inr (s\<lparr>heap := h\<rparr>) \<and> lruLinked h (x # xs) \<and> lruFrame (heap s) h"
proof -
  let ?hn = "hd (xs @ [Tail])"
  from allocated_sentinels[OF a] d have dist: "distinct (Head # xs @ [Tail])" by auto
  from allocated_sentinels[OF a] x nx have fresh: "x \<notin> set (Head # xs @ [Tail])" by auto
  from l have hn: "next (heap s Head) = Some ?hn"
    using dll_first[of "\<lambda>r. next (heap s r)" "\<lambda>r. prev (heap s r)" Head xs Tail]
    by (simp add: lruLinked_def)
  have "?hn \<in> set (xs @ [Tail])" by (rule hd_in_set) simp
  with fresh have xh: "x \<noteq> ?hn" by auto
  let ?h = "set_next Head (Some x) (set_prev ?hn (Some x)
              (set_next x (Some ?hn) (set_prev x (Some Head) (heap s))))"
  have eq: "addToHead x s = Inr (s\<lparr>heap := ?h\<rparr>)"
    using hn x by (simp add: addToHead_def Let_def)
  have "lruLinked ?h (x # xs)"
    unfolding lruLinked_def
    by (rule dll_add_head[OF l[unfolded lruLinked_def] fresh dist]) (use x xh hn in simp_all)
  moreover have "lruFrame (heap s) ?h" by (simp add: lruFrame_def)
  ultimately show ?thesis using eq by blast
qed

subsection \<open>The index\<close>

lemma al_update_new: "map_of al k = None \<Longrightarrow> AList.update k v al = al @ [(k, v)]"
  by (induction al) (auto split: if_splits)

lemma al_delete_facts:
  assumes "distinct (map fst al)" "distinct (map snd al)" "map_of al k = Some n"
  shows "set (map snd (AList.delete k al)) = set (map snd al) - {n}"
    and "distinct (map snd (AList.delete k al))"
    and "Suc (length (AList.delete k al)) = length al"
  using assms
proof (induction al)
  case Nil
  { case 1 then show ?case by simp }
  { case 2 then show ?case by simp }
  { case 3 then show ?case by simp }
next
  case (Cons p al)
  { case 1 then show ?case using Cons.IH(1) by (cases p) (force simp: delete_notin_dom map_of_eq_None_iff AList.delete_idem split: if_splits) }
  { case 2 then show ?case using Cons.IH(1,2) by (cases p) (auto split: if_splits) }
  { case 3 then show ?case using Cons.IH(3) by (cases p) (auto simp: map_of_eq_None_iff AList.delete_id  split: if_splits) }
qed

subsection \<open>Consequences of the invariant\<close>

lemma lru_inv_member:
  assumes "lru_inv s xs" "map_of (cache s) k = Some n"
  shows "n \<in> set xs" "key (heap s n) = Some k" "val (heap s n) \<noteq> None" "\<exists>i. n = Obj i"
proof -
  from assms(2) have m: "(k, n) \<in> set (cache s)" by (rule map_of_SomeD)
  then have "n \<in> set (map snd (cache s))" by force
  with assms(1) show n: "n \<in> set xs" by (simp add: lru_inv_def)
  from assms(1) m show "key (heap s n) = Some k" "val (heap s n) \<noteq> None"
    by (auto simp: lru_inv_def list_all_iff)
  from assms(1) n show "\<exists>i. n = Obj i" by (auto simp: lru_inv_def allocated_iff)
qed

lemma lru_inv_length: "lru_inv s xs \<Longrightarrow> length (cache s) = length xs"
proof -
  assume i: "lru_inv s xs"
  then have "length (map snd (cache s)) = card (set (map snd (cache s)))"
    by (metis distinct_card lru_inv_def)
  also have "\<dots> = card (set xs)" using i by (simp add: lru_inv_def)
  also have "\<dots> = length xs" using i by (simp add: lru_inv_def distinct_card)
  finally show ?thesis by simp
qed

lemma lru_inv_key_of:
  assumes "lru_inv s xs" "n \<in> set xs"
  shows "\<exists>k. key (heap s n) = Some k \<and> map_of (cache s) k = Some n"
proof -
  from assms have "n \<in> set (map snd (cache s))" by (simp add: lru_inv_def)
  then obtain k where m: "(k, n) \<in> set (cache s)" by auto
  with assms(1) have "key (heap s n) = Some k" by (auto simp: lru_inv_def list_all_iff)
  moreover from assms(1) m have "map_of (cache s) k = Some n" by (simp add: lru_inv_def)
  ultimately show ?thesis by blast
qed

lemma split_distinct:
  assumes "n \<in> set xs" "distinct xs"
  obtains as bs where "xs = as @ n # bs" "remove1 n xs = as @ bs"
proof -
  from assms(1) obtain as bs where x: "xs = as @ n # bs" by (auto simp: in_set_conv_decomp)
  with assms(2) have "n \<notin> set as" by auto
  then have "remove1 n xs = as @ bs" using x by (simp add: remove1_append)
  with x that show ?thesis by blast
qed

lemma lru_inv_counters [simp]:
  "lru_inv (s\<lparr>hits := a\<rparr>) = lru_inv s"
  "lru_inv (s\<lparr>misses := b\<rparr>) = lru_inv s"
  by (simp_all add: lru_inv_def fun_eq_iff)

lemma lru_inv_ttl_counters [simp]:
  "lru_inv (t\<lparr>expired := e\<rparr>) = lru_inv t"
  by (simp_all add: lru_inv_def fun_eq_iff)

lemma removeNode_eq: "removeNode x s = s\<lparr>heap := heap (removeNode x s)\<rparr>"
  by (simp add: removeNode_def Let_def)

lemma removeNode_payload [simp]:
  "key (heap (removeNode x s) r) = key (heap s r)"
  "val (heap (removeNode x s) r) = val (heap s r)"
  "timestamp (heap (removeNode x s) r) = timestamp (heap s r)"
  "timePrev (heap (removeNode x s) r) = timePrev (heap s r)"
  "timeNext (heap (removeNode x s) r) = timeNext (heap s r)"
  using removeNode_frame[of s x] by (simp_all add: lruFrame_def)

subsection \<open>delete\<close>

lemma lru_delete_inv:
  assumes inv: "lru_inv s xs" and k: "map_of (cache s) k = Some n"
  shows "lru_inv (removeNode n (s\<lparr>cache := AList.delete k (cache s)\<rparr>)) (remove1 n xs)"
proof -
  let ?s0 = "s\<lparr>cache := AList.delete k (cache s)\<rparr>"
  from lru_inv_member[OF inv k] have n: "n \<in> set xs" by simp
  from inv have d: "distinct xs" and a: "allocated (nextRef s) xs" and l: "lruLinked (heap s) xs"
    and df: "distinct (map fst (cache s))" and ds: "distinct (map snd (cache s))"
    and st: "set (map snd (cache s)) = set xs"
    and la: "list_all (\<lambda>(k, r). key (heap s r) = Some k \<and> val (heap s r) \<noteq> None) (cache s)"
    and m: "0 < maxSize s" "int (length (cache s)) \<le> maxSize s"
    by (simp_all add: lru_inv_def)
  from n d obtain as bs where xs: "xs = as @ n # bs" and r: "remove1 n xs = as @ bs"
    by (rule split_distinct)
  have 1: "lruLinked (heap (removeNode n ?s0)) (as @ bs)"
    by (rule removeNode_linked[where n = "nextRef s"]) (use l d a xs in simp_all)
  have 6: "set (map snd (AList.delete k (cache s))) = set (as @ bs)"
    using al_delete_facts(1)[OF df ds k] st d xs by auto
  have 7: "list_all (\<lambda>(k, r). key (heap s r) = Some k \<and> val (heap s r) \<noteq> None) (AList.delete k (cache s))"
    using la by (auto simp: list_all_iff AList.delete_eq)
  have 9: "int (length (AList.delete k (cache s))) \<le> maxSize s"
    using al_delete_facts(3)[OF df ds k] m by linarith
  show ?thesis
    unfolding lru_inv_def r
    using 1 6 7 9 d a m(1) xs al_delete_facts(2)[OF df ds k] AList.distinct_delete[OF df]
    by (auto intro: allocated_subset[OF a])
qed

subsection \<open>moveToHead, get\<close>

lemma lru_inv_heap_frame:
  assumes "lru_inv s xs" and "lruLinked h xs'" and "distinct xs'" and "set xs' = set xs"
    and "\<forall>r. key (h r) = key (heap s r) \<and> val (h r) = val (heap s r)"
  shows "lru_inv (s\<lparr>heap := h\<rparr>) xs'"
  using assms by (auto simp: lru_inv_def allocated_iff)

lemma moveToHead_inv:
  assumes inv: "lru_inv s xs" and n: "n \<in> set xs"
  shows "\<exists>h. moveToHead n s = Inr (s\<lparr>heap := h\<rparr>) \<and> lru_inv (s\<lparr>heap := h\<rparr>) (n # remove1 n xs) \<and>
             lruFrame (heap s) h"
proof -
  from inv have d: "distinct xs" and a: "allocated (nextRef s) xs" and l: "lruLinked (heap s) xs"
    by (simp_all add: lru_inv_def)
  from n d obtain as bs where xs: "xs = as @ n # bs" and r: "remove1 n xs = as @ bs"
    by (rule split_distinct)
  from a n obtain i where i: "n = Obj i" by (auto simp: allocated_iff)
  let ?s1 = "removeNode n s"
  have 1: "lruLinked (heap ?s1) (as @ bs)"
    by (rule removeNode_linked[where n = "nextRef s"]) (use l d a xs in simp_all)
  have "\<exists>h. addToHead n ?s1 = Inr (?s1\<lparr>heap := h\<rparr>) \<and> lruLinked h (n # as @ bs) \<and> lruFrame (heap ?s1) h"
    by (rule addToHead_linked[where n = "nextRef s" and i = i])
       (use 1 d a xs i in \<open>auto intro: allocated_subset[OF a]\<close>)
  then obtain h where h: "addToHead n ?s1 = Inr (?s1\<lparr>heap := h\<rparr>)"
    and lh: "lruLinked h (n # as @ bs)" and f: "lruFrame (heap ?s1) h" by blast
  have eq: "?s1\<lparr>heap := h\<rparr> = s\<lparr>heap := h\<rparr>" by (subst removeNode_eq) simp
  have fr: "lruFrame (heap s) h" using lruFrame_trans[OF removeNode_frame f] .
  have "lru_inv (s\<lparr>heap := h\<rparr>) (n # as @ bs)"
    by (rule lru_inv_heap_frame[OF inv lh]) (use d xs fr in \<open>auto simp: lruFrame_def\<close>)
  with h eq fr r show ?thesis by (auto simp: moveToHead_def)
qed

lemma lru_get_miss:
  "map_of (cache s) k = None \<Longrightarrow> FastCache_get k s = Inr (None, s\<lparr>misses := misses s + 1\<rparr>)"
  by (simp add: FastCache_get_def)

lemma lru_get_hit:
  assumes inv: "lru_inv s xs" and k: "map_of (cache s) k = Some n"
  shows "\<exists>h. FastCache_get k s = Inr (val (heap s n), s\<lparr>heap := h, hits := hits s + 1\<rparr>) \<and>
             lru_inv (s\<lparr>heap := h, hits := hits s + 1\<rparr>) (n # remove1 n xs) \<and> lruFrame (heap s) h"
proof -
  from moveToHead_inv[OF inv lru_inv_member(1)[OF inv k]] obtain h where
    h: "moveToHead n s = Inr (s\<lparr>heap := h\<rparr>)" "lru_inv (s\<lparr>heap := h\<rparr>) (n # remove1 n xs)"
       "lruFrame (heap s) h" by blast
  then show ?thesis using k by (auto simp: FastCache_get_def lruFrame_def)
qed

subsection \<open>set\<close>

lemma lru_inv_set_val:
  "lru_inv s xs \<Longrightarrow> lru_inv (s\<lparr>heap := set_val n (Some v) (heap s)\<rparr>) xs"
  by (auto simp: lru_inv_def lruLinked_def list_all_iff)

lemma lru_set_existing:
  assumes inv: "lru_inv s xs" and k: "map_of (cache s) k = Some n"
  shows "\<exists>h. FastCache_set k v s = Inr (s\<lparr>heap := h\<rparr>) \<and>
             lru_inv (s\<lparr>heap := h\<rparr>) (n # remove1 n xs) \<and> val (h n) = Some v \<and>
             (\<forall>r. key (h r) = key (heap s r) \<and> timestamp (h r) = timestamp (heap s r) \<and>
                  timePrev (h r) = timePrev (heap s r) \<and> timeNext (h r) = timeNext (heap s r) \<and>
                  (r \<noteq> n \<longrightarrow> val (h r) = val (heap s r)))"
proof -
  let ?s0 = "s\<lparr>heap := set_val n (Some v) (heap s)\<rparr>"
  have i0: "lru_inv ?s0 xs" by (rule lru_inv_set_val[OF inv])
  from moveToHead_inv[OF i0 lru_inv_member(1)[OF inv k]] obtain h where
    h: "moveToHead n ?s0 = Inr (?s0\<lparr>heap := h\<rparr>)" "lru_inv (?s0\<lparr>heap := h\<rparr>) (n # remove1 n xs)"
       "lruFrame (heap ?s0) h" by blast
  then show ?thesis using k by (auto simp: FastCache_set_def lruFrame_def)
qed

lemma lru_inv_alloc:
  assumes "lru_inv s xs"
  shows "lru_inv (s\<lparr>heap := (heap s)(Obj (nextRef s) := nd), nextRef := Suc (nextRef s)\<rparr>) xs"
proof -
  from assms have a: "allocated (nextRef s) xs" and l: "lruLinked (heap s) xs"
    by (simp_all add: lru_inv_def)
  have f: "Obj (nextRef s) \<notin> set xs" by (rule allocated_fresh[OF a]) simp
  have "lruLinked ((heap s)(Obj (nextRef s) := nd)) xs = lruLinked (heap s) xs"
    unfolding lruLinked_def by (rule dll_cong) (use f allocated_sentinels[OF a] in auto)
  moreover have "allocated (Suc (nextRef s)) xs" by (rule allocated_mono[OF a]) simp
  moreover have "\<forall>(k, r) \<in> set (cache s). r \<noteq> Obj (nextRef s)"
    using assms f by (force simp: lru_inv_def)
  ultimately show ?thesis using assms by (auto simp: lru_inv_def list_all_iff)
qed

lemma removeTail_inv:
  assumes inv: "lru_inv s xs" and ne: "xs \<noteq> []"
  shows "\<exists>kl. key (heap s (last xs)) = Some kl \<and> map_of (cache s) kl = Some (last xs) \<and>
           removeTail s = removeNode (last xs) (s\<lparr>cache := AList.delete kl (cache s)\<rparr>) \<and>
           lru_inv (removeTail s) (butlast xs)"
proof -
  from inv have a: "allocated (nextRef s) xs" and l: "lruLinked (heap s) xs" and d: "distinct xs"
    by (simp_all add: lru_inv_def)
  from ne have lx: "last xs \<in> set xs" by simp
  from lru_inv_key_of[OF inv lx] obtain kl where
    kl: "key (heap s (last xs)) = Some kl" "map_of (cache s) kl = Some (last xs)" by blast
  from l have "prev (heap s Tail) = Some (last (Head # xs))"
    using dll_last[of "\<lambda>r. next (heap s r)" "\<lambda>r. prev (heap s r)" Head xs Tail]
    by (simp add: lruLinked_def)
  with ne have p: "prev (heap s Tail) = Some (last xs)" by simp
  from allocated_sentinels[OF a] lx have nh: "last xs \<noteq> Head" by auto
  have eq: "removeTail s = removeNode (last xs) (s\<lparr>cache := AList.delete kl (cache s)\<rparr>)"
    using p nh kl by (simp add: removeTail_def)
  have "remove1 (last xs) xs = butlast xs"
    using d ne by (metis append_butlast_last_id distinct_append remove1_append remove1.simps
        not_distinct_conv_prefix append_Nil2 remove1_idem distinct_butlast distinct.simps(2) disjoint_iff list.set_intros(1))
  with lru_delete_inv[OF inv kl(2)] eq kl show ?thesis by auto
qed

lemma remove1_last: "distinct xs \<Longrightarrow> xs \<noteq> [] \<Longrightarrow> remove1 (last xs) xs = butlast xs"
proof -
  assume d: "distinct xs" and ne: "xs \<noteq> []"
  then have x: "xs = butlast xs @ [last xs]" by simp
  with d have "last xs \<notin> set (butlast xs)" by (metis distinct_append disjoint_iff list.set_intros(1))
  then have "remove1 (last xs) (butlast xs @ [last xs]) = butlast xs" by (simp add: remove1_append)
  with x show ?thesis by simp
qed

lemma lru_set_new:
  assumes inv: "lru_inv s xs" and k: "map_of (cache s) k = None"
  defines "new \<equiv> Obj (nextRef s)"
  defines "full \<equiv> int (length (cache s)) \<ge> maxSize s"
  shows "\<exists>h c. FastCache_set k v s = Inr (s\<lparr>cache := c @ [(k, new)], heap := h, nextRef := Suc (nextRef s)\<rparr>) \<and>
           lru_inv (s\<lparr>cache := c @ [(k, new)], heap := h, nextRef := Suc (nextRef s)\<rparr>)
                   (new # (if full then butlast xs else xs)) \<and>
           (if full then xs \<noteq> [] \<and> (\<exists>kl. key (heap s (last xs)) = Some kl \<and> map_of (cache s) kl = Some (last xs) \<and>
                                      c = AList.delete kl (cache s))
            else c = cache s) \<and>
           key (h new) = Some k \<and> val (h new) = Some v \<and>
           (\<forall>r. r \<noteq> new \<longrightarrow> key (h r) = key (heap s r) \<and> val (h r) = val (heap s r) \<and>
                timestamp (h r) = timestamp (heap s r) \<and>
                timePrev (h r) = timePrev (heap s r) \<and> timeNext (h r) = timeNext (heap s r))"
proof -
  let ?nd = "\<lparr>key = Some k, val = Some v, prev = None, next = None,
             timestamp = None, timePrev = None, timeNext = None\<rparr> :: ('a, 'b) node"
  let ?s1 = "s\<lparr>heap := (heap s)(new := ?nd), nextRef := Suc (nextRef s)\<rparr>"
  let ?s2 = "if full then removeTail ?s1 else ?s1"
  let ?xs2 = "if full then butlast xs else xs"
  have i1: "lru_inv ?s1 xs" unfolding new_def by (rule lru_inv_alloc[OF inv])
  have len: "length (cache s) = length xs" by (rule lru_inv_length[OF inv])
  from inv have m: "0 < maxSize s" "int (length (cache s)) \<le> maxSize s" by (simp_all add: lru_inv_def)
  have ne: "full \<Longrightarrow> xs \<noteq> []" using m len by (auto simp: full_def)
  have newxs: "new \<notin> set xs"
  proof -
    from inv have "allocated (nextRef s) xs" by (simp add: lru_inv_def)
    then show ?thesis unfolding new_def by (rule allocated_fresh) simp
  qed
  have s2: "\<exists>c. ?s2 = ?s1\<lparr>cache := c, heap := heap ?s2\<rparr> \<and> lru_inv ?s2 ?xs2 \<and>
            int (length c) < maxSize s \<and> map_of c k = None \<and>
            (if full then xs \<noteq> [] \<and> (\<exists>kl. key (heap s (last xs)) = Some kl \<and> map_of (cache s) kl = Some (last xs) \<and>
                                      c = AList.delete kl (cache s))
             else c = cache s) \<and> lruFrame (heap ?s1) (heap ?s2)"
  proof (cases full)
    case True
    from removeTail_inv[OF i1 ne[OF True]] obtain kl where
      kl: "key (heap ?s1 (last xs)) = Some kl" "map_of (cache ?s1) kl = Some (last xs)"
        "removeTail ?s1 = removeNode (last xs) (?s1\<lparr>cache := AList.delete kl (cache ?s1)\<rparr>)"
        "lru_inv (removeTail ?s1) (butlast xs)" by blast
    have lx: "last xs \<noteq> new" using newxs ne[OF True] last_in_set by metis
    from inv have df: "distinct (map fst (cache s))" and ds: "distinct (map snd (cache s))"
      by (simp_all add: lru_inv_def)
    have "Suc (length (AList.delete kl (cache s))) = length (cache s)"
      using al_delete_facts(3)[OF df ds] kl(2) by simp
    then have l: "int (length (AList.delete kl (cache s))) < maxSize s" using m by linarith
    have mk: "map_of (AList.delete kl (cache s)) k = None" using k by (simp add: AList.delete_conv')
    have e: "removeTail ?s1 = ?s1\<lparr>cache := AList.delete kl (cache s), heap := heap (removeTail ?s1)\<rparr>"
      by (subst kl(3), subst removeNode_eq) (simp add: kl(3))
    have fr: "lruFrame (heap ?s1) (heap (removeTail ?s1))"
      unfolding kl(3) using removeNode_frame[of "?s1\<lparr>cache := AList.delete kl (cache ?s1)\<rparr>" "last xs"] by simp
    show ?thesis using True kl lx l mk e fr ne[OF True] by (intro exI[of _ "AList.delete kl (cache s)"]) auto
  next
    case False
    then show ?thesis using i1 k m by (intro exI[of _ "cache s"]) (auto simp: full_def)
  qed
  then obtain c where c: "?s2 = ?s1\<lparr>cache := c, heap := heap ?s2\<rparr>" "lru_inv ?s2 ?xs2"
    "int (length c) < maxSize s" "map_of c k = None"
    "if full then xs \<noteq> [] \<and> (\<exists>kl. key (heap s (last xs)) = Some kl \<and> map_of (cache s) kl = Some (last xs) \<and>
                                      c = AList.delete kl (cache s))
             else c = cache s" "lruFrame (heap ?s1) (heap ?s2)" by blast
  let ?s3 = "?s2\<lparr>cache := AList.update k new (cache ?s2)\<rparr>"
  have cs2: "cache ?s2 = c" by (subst c(1)) simp
  have upd: "AList.update k new (cache ?s2) = c @ [(k, new)]"
    unfolding cs2 by (rule al_update_new[OF c(4)])
  from c(2) have d2: "distinct ?xs2" and a2: "allocated (nextRef ?s2) ?xs2" and l2: "lruLinked (heap ?s2) ?xs2"
    by (simp_all only: lru_inv_def)
  have nr2: "nextRef ?s2 = Suc (nextRef s)" by (subst c(1)) simp
  have new2: "new \<notin> set ?xs2" using newxs by (auto dest: in_set_butlastD)
  have "\<exists>h. addToHead new ?s3 = Inr (?s3\<lparr>heap := h\<rparr>) \<and> lruLinked h (new # ?xs2) \<and> lruFrame (heap ?s3) h"
    by (rule addToHead_linked[where n = "nextRef ?s2" and i = "nextRef s"])
       (use l2 d2 a2 new2 in \<open>simp_all add: new_def\<close>)
  then obtain h where h: "addToHead new ?s3 = Inr (?s3\<lparr>heap := h\<rparr>)" "lruLinked h (new # ?xs2)"
    "lruFrame (heap ?s3) h" by blast
  have fr: "lruFrame (heap ?s1) h" using lruFrame_trans[OF c(6)] h(3) by simp
  let ?r = "s\<lparr>cache := c @ [(k, new)], heap := h, nextRef := Suc (nextRef s)\<rparr>"
  have s3: "?s3\<lparr>heap := h\<rparr> = ?r" by (subst c(1)) (simp add: upd)
  have "FastCache_set k v s = addToHead new ?s3"
    by (simp add: FastCache_set_def Let_def k full_def new_def)
  also have "\<dots> = Inr (?s3\<lparr>heap := h\<rparr>)" by (rule h(1))
  also have "\<dots> = Inr ?r" by (simp only: s3)
  finally have setr: "FastCache_set k v s = Inr ?r" .
  have pay: "key (h new) = Some k" "val (h new) = Some v"
    "\<forall>r. r \<noteq> new \<longrightarrow> key (h r) = key (heap s r) \<and> val (h r) = val (heap s r) \<and>
                timestamp (h r) = timestamp (heap s r) \<and>
                timePrev (h r) = timePrev (heap s r) \<and> timeNext (h r) = timeNext (heap s r)"
    using fr by (simp_all add: lruFrame_def)
  have invr: "lru_inv ?r (new # ?xs2)"
  proof -
    from c(2) have q: "distinct (map fst c)" "distinct (map snd c)" "set (map snd c) = set ?xs2"
      "list_all (\<lambda>(k, r). key (heap ?s2 r) = Some k \<and> val (heap ?s2 r) \<noteq> None) c"
      unfolding lru_inv_def cs2 by simp_all
    have kc: "k \<notin> fst ` set c" using c(4) by (simp add: map_of_eq_None_iff)
    have "list_all (\<lambda>(k, r). key (h r) = Some k \<and> val (h r) \<noteq> None) c"
      using q(4) h(3) by (auto simp: list_all_iff lruFrame_def)
    moreover have "allocated (Suc (nextRef s)) (new # ?xs2)"
      using a2 nr2 by (auto simp: allocated_iff new_def)
    ultimately show ?thesis
      unfolding lru_inv_def using h(2) d2 new2 q kc pay(1,2) m(1) c(3) by auto
  qed
  show ?thesis using setr invr c(5) pay by blast
qed

lemma lru_clear_inv: "lru_inv s xs \<Longrightarrow> lru_inv (FastCache_clear s) []"
  by (simp add: lru_inv_def FastCache_clear_def lruLinked_def allocated_def)

lemma lru_new_inv: "FastCache_new c = Inr s \<Longrightarrow> lru_inv s [] \<and> maxSize s = c \<and> hits s = 0 \<and> misses s = 0"
  by (auto simp: FastCache_new_def lru_inv_def lruLinked_def allocated_def split: if_splits)

subsection \<open>Runs of the base cache\<close>

lemma step_inv:
  assumes "lru_inv s xs"
  shows "\<exists>r s' xs'. step x s = Inr (r, s') \<and> lru_inv s' xs' \<and> maxSize s' = maxSize s"
proof (cases x)
  case (Set k v)
  show ?thesis
  proof (cases "map_of (cache s) k")
    case None
    from lru_set_new[OF assms None, of v] show ?thesis unfolding Set by (auto simp del: lru_inv_def)
  next
    case (Some n)
    from lru_set_existing[OF assms Some, of v] show ?thesis unfolding Set by auto
  qed
next
  case (Get k)
  show ?thesis
  proof (cases "map_of (cache s) k")
    case None
    then show ?thesis unfolding Get using assms by (auto simp: lru_get_miss)
  next
    case (Some n)
    from lru_get_hit[OF assms Some] obtain h where
      h: "FastCache_get k s = Inr (val (heap s n), s\<lparr>heap := h, hits := hits s + 1\<rparr>)"
         "lru_inv (s\<lparr>heap := h, hits := hits s + 1\<rparr>) (n # remove1 n xs)" by blast
    show ?thesis unfolding Get using h
      by (intro exI[of _ "RValue (val (heap s n))"] exI[of _ "s\<lparr>heap := h, hits := hits s + 1\<rparr>"]
          exI[of _ "n # remove1 n xs"]) simp
  qed
next
  case (Delete k)
  show ?thesis
  proof (cases "map_of (cache s) k")
    case None
    then show ?thesis unfolding Delete using assms by (auto simp: FastCache_delete_def)
  next
    case (Some n)
    from lru_delete_inv[OF assms Some] show ?thesis unfolding Delete using Some
      by (auto simp: FastCache_delete_def)
  qed
next
  case (Has k)
  then show ?thesis using assms by auto
next
  case Clear
  then show ?thesis using lru_clear_inv[OF assms] by (auto simp: FastCache_clear_def)
qed

lemma exec_inv:
  "lru_inv s xs \<Longrightarrow> \<exists>rs s' xs'. exec ops s = Inr (rs, s') \<and> lru_inv s' xs' \<and> maxSize s' = maxSize s"
proof (induction ops arbitrary: s xs)
  case Nil
  then show ?case by auto
next
  case (Cons x ops)
  from step_inv[OF Cons.prems, of x] obtain r s1 xs1 where
    1: "step x s = Inr (r, s1)" "lru_inv s1 xs1" "maxSize s1 = maxSize s" by blast
  from Cons.IH[OF 1(2)] obtain rs s' xs' where
    2: "exec ops s1 = Inr (rs, s')" "lru_inv s' xs'" "maxSize s' = maxSize s1" by blast
  from 1 2 show ?case by auto
qed

lemma lruList_inv: "lru_inv s xs \<Longrightarrow> lruList s = Some xs"
proof -
  assume i: "lru_inv s xs"
  then have a: "allocated (nextRef s) xs" and d: "distinct xs" and l: "lruLinked (heap s) xs"
    by (simp_all add: lru_inv_def)
  have "length xs < Suc (nextRef s)" using allocated_length[OF d a] by simp
  then show ?thesis
    unfolding lruList_def using l allocated_sentinels[OF a]
    by (intro walk_dll[where pv = "\<lambda>r. prev (heap s r)"]) (simp_all add: lruLinked_def)
qed

subsection \<open>The time list\<close>

lemma removeFromTimeList_fields [simp]:
  "cache (removeFromTimeList x s) = cache s" "nextRef (removeFromTimeList x s) = nextRef s"
  "maxSize (removeFromTimeList x s) = maxSize s" "hits (removeFromTimeList x s) = hits s"
  "misses (removeFromTimeList x s) = misses s" "ttl (removeFromTimeList x s) = ttl s"
  "expired (removeFromTimeList x s) = expired s" "autoCleanup (removeFromTimeList x s) = autoCleanup s"
  "cleanupTimer (removeFromTimeList x s) = cleanupTimer s"
  by (simp_all add: removeFromTimeList_def Let_def)

lemma removeFromTimeList_eq: "removeFromTimeList x s = s\<lparr>heap := heap (removeFromTimeList x s)\<rparr>"
  by (simp add: removeFromTimeList_def Let_def)

lemma removeFromTimeList_frame [simp]: "timeFrame (heap s) (heap (removeFromTimeList x s))"
  by (simp add: removeFromTimeList_def Let_def timeFrame_def split: option.split)

lemma removeFromTimeList_linked:
  assumes l: "timeLinked (heap s) (as @ x # bs)"
    and d: "distinct (as @ x # bs)" and a: "allocated n (as @ x # bs)"
  shows "timeLinked (heap (removeFromTimeList x s)) (as @ bs)"
proof -
  let ?a = "last (TimeHead # as)" and ?b = "hd (bs @ [TimeTail])"
  from allocated_sentinels[OF a] d have dist: "distinct (TimeHead # as @ x # bs @ [TimeTail])" by auto
  from l have px: "timePrev (heap s x) = Some ?a" and nx: "timeNext (heap s x) = Some ?b"
    using dll_member[of "\<lambda>r. timeNext (heap s r)" "\<lambda>r. timePrev (heap s r)" TimeHead as x bs TimeTail]
    by (simp_all add: timeLinked_def)
  have "?a \<in> set (TimeHead # as)" by (rule last_in_set) simp
  with dist have ax: "?a \<noteq> x" by auto
  have hp: "heap (removeFromTimeList x s) = set_timePrev ?b (Some ?a) (set_timeNext ?a (Some ?b) (heap s))"
    using px nx ax by (simp add: removeFromTimeList_def Let_def)
  show ?thesis
    unfolding timeLinked_def
    by (rule dll_unlink[OF l[unfolded timeLinked_def] dist]) (simp_all add: hp)
qed

lemma addToTimeListTail_linked:
  assumes l: "timeLinked (heap s) ts" and d: "distinct ts" and a: "allocated n ts"
    and x: "x = Obj i" and nx: "x \<notin> set ts"
  shows "\<exists>h. addToTimeListTail x s = Inr (s\<lparr>heap := h\<rparr>) \<and> timeLinked h (ts @ [x]) \<and> timeFrame (heap s) h"
proof -
  let ?p = "last (TimeHead # ts)"
  from allocated_sentinels[OF a] d have dist: "distinct (TimeHead # ts @ [TimeTail])" by auto
  from allocated_sentinels[OF a] x nx have fresh: "x \<notin> set (TimeHead # ts @ [TimeTail])" by auto
  from l have p: "timePrev (heap s TimeTail) = Some ?p"
    using dll_last[of "\<lambda>r. timeNext (heap s r)" "\<lambda>r. timePrev (heap s r)" TimeHead ts TimeTail]
    by (simp add: timeLinked_def)
  have "?p \<in> set (TimeHead # ts)" by (rule last_in_set) simp
  with fresh have xp: "x \<noteq> ?p" by auto
  let ?h = "set_timePrev TimeTail (Some x) (set_timeNext x (Some TimeTail)
              (set_timePrev x (Some ?p) (set_timeNext ?p (Some x) (heap s))))"
  have eq: "addToTimeListTail x s = Inr (s\<lparr>heap := ?h\<rparr>)"
    using p by (simp add: addToTimeListTail_def Let_def)
  have "timeLinked ?h (ts @ [x])"
    unfolding timeLinked_def
    by (rule dll_add_tail[OF l[unfolded timeLinked_def] fresh dist]) (use x xp in simp_all)
  moreover have "timeFrame (heap s) ?h" by (simp add: timeFrame_def)
  ultimately show ?thesis using eq by blast
qed

lemma timeList_inv: "ttl_inv s xs ts \<Longrightarrow> timeList s = Some ts"
proof -
  assume i: "ttl_inv s xs ts"
  then have a: "allocated (nextRef s) ts" and d: "distinct ts" and l: "timeLinked (heap s) ts"
    by (simp_all add: ttl_inv_def)
  have "length ts < Suc (nextRef s)" using allocated_length[OF d a] by simp
  then show ?thesis
    unfolding timeList_def using l allocated_sentinels[OF a]
    by (intro walk_dll[where pv = "\<lambda>r. timePrev (heap s r)"]) (simp_all add: timeLinked_def)
qed

lemma lru_inv_timeFrame:
  assumes "lru_inv s xs" "timeFrame (heap s) h"
  shows "lru_inv (s\<lparr>heap := h\<rparr>) xs"
proof -
  from assms(1) have "lruLinked (heap s) xs" by (simp add: lru_inv_def)
  then have "lruLinked h xs" using timeFrame_lruLinked[OF assms(2)] by simp
  then show ?thesis
    by (rule lru_inv_heap_frame[OF assms(1)]) (use assms in \<open>auto simp: lru_inv_def timeFrame_def\<close>)
qed

subsection \<open>Operations of the TTL cache\<close>

lemma ttl_inv_counters [simp]:
  "ttl_inv (s\<lparr>hits := a\<rparr>) = ttl_inv s"
  "ttl_inv (s\<lparr>misses := b\<rparr>) = ttl_inv s"
  "ttl_inv (s\<lparr>expired := e\<rparr>) = ttl_inv s"
  by (simp_all add: ttl_inv_def fun_eq_iff)

lemma linked_set_timestamp [simp]:
  "timeLinked (set_timestamp n v h) ts = timeLinked h ts"
  "lruLinked (set_timestamp n v h) xs = lruLinked h xs"
  by (simp_all add: timeLinked_def lruLinked_def)

lemma lru_inv_set_timestamp:
  "lru_inv s xs \<Longrightarrow> lru_inv (s\<lparr>heap := set_timestamp n v (heap s)\<rparr>) xs"
  by (auto simp: lru_inv_def list_all_iff)

lemma subset_remove1:
  "distinct xs \<Longrightarrow> distinct ts \<Longrightarrow> set xs \<subseteq> set ts \<Longrightarrow> set (remove1 n xs) \<subseteq> set (remove1 n ts)"
  by (auto simp: set_remove1_eq)

lemma ttl_delete_hit:
  assumes inv: "ttl_inv s xs ts" and k: "map_of (cache s) k = Some n"
  shows "\<exists>h. FastCacheWithTTL_delete k s = (True, s\<lparr>cache := AList.delete k (cache s), heap := h\<rparr>) \<and>
             ttl_inv (s\<lparr>cache := AList.delete k (cache s), heap := h\<rparr>) (remove1 n xs) (remove1 n ts) \<and>
             (\<forall>r. key (h r) = key (heap s r) \<and> val (h r) = val (heap s r) \<and>
                  timestamp (h r) = timestamp (heap s r))"
proof -
  from inv have li: "lru_inv s xs" and tl: "timeLinked (heap s) ts" and dt: "distinct ts"
    and at: "allocated (nextRef s) ts" and sub: "set xs \<subseteq> set ts"
    and st: "\<forall>r \<in> set xs. timestamp (heap s r) \<noteq> None"
    by (auto simp: ttl_inv_def list_all_iff)
  from li have dx: "distinct xs" by (simp add: lru_inv_def)
  from lru_inv_member(1)[OF li k] sub have nt: "n \<in> set ts" by auto
  from nt dt obtain as bs where ts: "ts = as @ n # bs" and r: "remove1 n ts = as @ bs"
    by (rule split_distinct)
  let ?s1 = "removeFromTimeList n s"
  let ?c = "AList.delete k (cache s)"
  let ?s2 = "removeNode n (?s1\<lparr>cache := ?c\<rparr>)"
  have l1: "timeLinked (heap ?s1) (as @ bs)"
    by (rule removeFromTimeList_linked[where n = "nextRef s"]) (use tl dt at ts in simp_all)
  have e1: "?s1 = s\<lparr>heap := heap ?s1\<rparr>" by (rule removeFromTimeList_eq)
  have i1: "lru_inv ?s1 xs"
    by (subst e1) (rule lru_inv_timeFrame[OF li removeFromTimeList_frame])
  have i2: "lru_inv ?s2 (remove1 n xs)"
    using lru_delete_inv[OF i1, of k n] k by simp
  have f2: "lruFrame (heap ?s1) (heap ?s2)"
    using removeNode_frame[of "?s1\<lparr>cache := ?c\<rparr>" n] by simp
  have l2: "timeLinked (heap ?s2) (as @ bs)"
    using lruFrame_timeLinked[OF f2] l1 by simp
  define h where "h = heap ?s2"
  have e2: "?s2 = s\<lparr>cache := ?c, heap := h\<rparr>"
    unfolding h_def by (subst removeNode_eq, subst (2) e1) simp
  have del: "FastCacheWithTTL_delete k s = (True, ?s2)"
    using k by (simp add: FastCacheWithTTL_delete_def FastCache_delete_def)
  have pay: "\<forall>r. key (h r) = key (heap s r) \<and> val (h r) = val (heap s r) \<and>
                  timestamp (h r) = timestamp (heap s r)"
    unfolding h_def using removeFromTimeList_frame[of s n] by (simp add: timeFrame_def)
  have d': "distinct (remove1 n ts)" using dt by simp
  have a': "allocated (nextRef ?s2) (remove1 n ts)"
    using allocated_subset[OF at set_remove1_subset, of n] by simp
  have l': "timeLinked (heap ?s2) (remove1 n ts)" using l2 r by simp
  have st': "\<forall>r \<in> set (remove1 n xs). timestamp (heap ?s2 r) \<noteq> None"
    using st pay set_remove1_subset[of n xs] unfolding h_def by auto
  have "ttl_inv ?s2 (remove1 n xs) (remove1 n ts)"
    unfolding ttl_inv_def list_all_iff
    using i2 l' d' a' st' subset_remove1[OF dx dt sub, of n] by blast
  then have "ttl_inv (s\<lparr>cache := ?c, heap := h\<rparr>) (remove1 n xs) (remove1 n ts)"
    by (simp only: e2)
  moreover have "FastCacheWithTTL_delete k s = (True, s\<lparr>cache := ?c, heap := h\<rparr>)"
    using del by (simp only: e2)
  ultimately show ?thesis using pay by blast
qed

lemma ttl_get_expired:
  assumes inv: "ttl_inv s xs ts" and k: "map_of (cache s) k = Some n" and e: "isExpired n now s"
  shows "\<exists>h. FastCacheWithTTL_get now k s =
               Inr (None, s\<lparr>cache := AList.delete k (cache s), heap := h,
                             misses := misses s + 1, expired := expired s + 1\<rparr>) \<and>
             ttl_inv (s\<lparr>cache := AList.delete k (cache s), heap := h,
                        misses := misses s + 1, expired := expired s + 1\<rparr>)
                     (remove1 n xs) (remove1 n ts)"
proof -
  from ttl_delete_hit[OF inv k] obtain h where
    h: "FastCacheWithTTL_delete k s = (True, s\<lparr>cache := AList.delete k (cache s), heap := h\<rparr>)"
       "ttl_inv (s\<lparr>cache := AList.delete k (cache s), heap := h\<rparr>) (remove1 n xs) (remove1 n ts)"
    by blast
  have "FastCacheWithTTL_get now k s =
               Inr (None, s\<lparr>cache := AList.delete k (cache s), heap := h,
                             misses := misses s + 1, expired := expired s + 1\<rparr>)"
    using k e h(1) by (simp add: FastCacheWithTTL_get_def Let_def)
  moreover have "ttl_inv (s\<lparr>cache := AList.delete k (cache s), heap := h,
                        misses := misses s + 1, expired := expired s + 1\<rparr>)
                     (remove1 n xs) (remove1 n ts)"
    using h(2) by simp
  ultimately show ?thesis by blast
qed

lemma ttl_get_live:
  assumes inv: "ttl_inv s xs ts" and k: "map_of (cache s) k = Some n" and e: "\<not> isExpired n now s"
  shows "\<exists>h. FastCacheWithTTL_get now k s = Inr (val (heap s n), s\<lparr>heap := h, hits := hits s + 1\<rparr>) \<and>
             ttl_inv (s\<lparr>heap := h, hits := hits s + 1\<rparr>) (n # remove1 n xs) ts \<and>
             lruFrame (heap s) h"
proof -
  from inv have li: "lru_inv s xs" and tl: "timeLinked (heap s) ts" and dt: "distinct ts"
    and at: "allocated (nextRef s) ts" and sub: "set xs \<subseteq> set ts"
    and st: "\<forall>r \<in> set xs. timestamp (heap s r) \<noteq> None"
    by (auto simp: ttl_inv_def list_all_iff)
  from lru_get_hit[OF li k] obtain h where
    h: "FastCache_get k s = Inr (val (heap s n), s\<lparr>heap := h, hits := hits s + 1\<rparr>)"
       "lru_inv (s\<lparr>heap := h, hits := hits s + 1\<rparr>) (n # remove1 n xs)" "lruFrame (heap s) h"
    by blast
  have g: "FastCacheWithTTL_get now k s = FastCache_get k s"
    using k e by (simp add: FastCacheWithTTL_get_def)
  have "timeLinked h ts" using lruFrame_timeLinked[OF h(3)] tl by simp
  moreover have "set (n # remove1 n xs) \<subseteq> set ts"
    using sub lru_inv_member(1)[OF li k] set_remove1_subset[of n xs] by auto
  moreover have "\<forall>r \<in> set (n # remove1 n xs). timestamp (h r) \<noteq> None"
    using st h(3) lru_inv_member(1)[OF li k] set_remove1_subset[of n xs]
    by (auto simp: lruFrame_def)
  ultimately have "ttl_inv (s\<lparr>heap := h, hits := hits s + 1\<rparr>) (n # remove1 n xs) ts"
    unfolding ttl_inv_def list_all_iff using h(2) dt at by auto
  with g h show ?thesis by auto
qed

lemma ttl_has_expired:
  assumes inv: "ttl_inv s xs ts" and k: "map_of (cache s) k = Some n" and e: "isExpired n now s"
  shows "\<exists>h. FastCacheWithTTL_has now k s =
               (False, s\<lparr>cache := AList.delete k (cache s), heap := h, expired := expired s + 1\<rparr>) \<and>
             ttl_inv (s\<lparr>cache := AList.delete k (cache s), heap := h, expired := expired s + 1\<rparr>)
                     (remove1 n xs) (remove1 n ts)"
proof -
  from ttl_delete_hit[OF inv k] obtain h where
    h: "FastCacheWithTTL_delete k s = (True, s\<lparr>cache := AList.delete k (cache s), heap := h\<rparr>)"
       "ttl_inv (s\<lparr>cache := AList.delete k (cache s), heap := h\<rparr>) (remove1 n xs) (remove1 n ts)"
    by blast
  have "FastCacheWithTTL_has now k s =
               (False, s\<lparr>cache := AList.delete k (cache s), heap := h, expired := expired s + 1\<rparr>)"
    using k e h(1) by (simp add: FastCacheWithTTL_has_def Let_def)
  moreover have "ttl_inv (s\<lparr>cache := AList.delete k (cache s), heap := h, expired := expired s + 1\<rparr>)
                     (remove1 n xs) (remove1 n ts)"
    using h(2) by simp
  ultimately show ?thesis by blast
qed

lemma ttl_has_live:
  "map_of (cache s) k = Some n \<Longrightarrow> \<not> isExpired n now s \<Longrightarrow> FastCacheWithTTL_has now k s = (True, s)"
  by (simp add: FastCacheWithTTL_has_def)

lemma ttl_clear_inv: "ttl_inv s xs ts \<Longrightarrow> ttl_inv (FastCacheWithTTL_clear s) [] []"
  by (simp add: ttl_inv_def lru_inv_def FastCacheWithTTL_clear_def FastCache_clear_def Let_def
      lruLinked_def timeLinked_def allocated_def)

lemma ttl_new_inv:
  "FastCacheWithTTL_new opts = Inr s \<Longrightarrow> ttl_inv s [] [] \<and> hits s = 0 \<and> misses s = 0 \<and> expired s = 0"
  by (auto simp: FastCacheWithTTL_new_def FastCache_new_def ttl_inv_def lru_inv_def lruLinked_def
      timeLinked_def allocated_def Let_def split: if_splits sum.splits)

lemma ttl_set_existing:
  assumes inv: "ttl_inv s xs ts" and k: "map_of (cache s) k = Some n"
  shows "\<exists>h. FastCacheWithTTL_set now k v s = Inr (s\<lparr>heap := h\<rparr>) \<and>
             ttl_inv (s\<lparr>heap := h\<rparr>) (n # remove1 n xs) (remove1 n ts @ [n]) \<and>
             timestamp (h n) = Some (if 0 < ttl s then now else 0) \<and> val (h n) = Some v \<and>
             (\<forall>r. key (h r) = key (heap s r)) \<and>
             (\<forall>r. r \<noteq> n \<longrightarrow> timestamp (h r) = timestamp (heap s r) \<and> val (h r) = val (heap s r))"
proof -
  let ?now = "if 0 < ttl s then now else 0"
  from inv have li: "lru_inv s xs" and tl: "timeLinked (heap s) ts" and dt: "distinct ts"
    and at: "allocated (nextRef s) ts" and sub: "set xs \<subseteq> set ts"
    and st: "\<forall>r \<in> set xs. timestamp (heap s r) \<noteq> None"
    by (auto simp: ttl_inv_def list_all_iff)
  from lru_inv_member[OF li k] sub obtain i where nt: "n \<in> set ts" and nx: "n \<in> set xs" and i: "n = Obj i"
    by auto
  from nt dt obtain as bs where ts: "ts = as @ n # bs" and r: "remove1 n ts = as @ bs"
    by (rule split_distinct)
  from lru_set_existing[OF li k, of v] obtain h1 where
    h1: "FastCache_set k v s = Inr (s\<lparr>heap := h1\<rparr>)" "lru_inv (s\<lparr>heap := h1\<rparr>) (n # remove1 n xs)"
      "val (h1 n) = Some v"
      "\<forall>r. key (h1 r) = key (heap s r) \<and> timestamp (h1 r) = timestamp (heap s r) \<and>
                  timePrev (h1 r) = timePrev (heap s r) \<and> timeNext (h1 r) = timeNext (heap s r) \<and>
                  (r \<noteq> n \<longrightarrow> val (h1 r) = val (heap s r))"
    by blast
  let ?h2 = "set_timestamp n (Some ?now) h1"
  let ?s2 = "s\<lparr>heap := ?h2\<rparr>"
  have i2: "lru_inv ?s2 (n # remove1 n xs)"
    using lru_inv_set_timestamp[OF h1(2), of n "Some ?now"] by simp
  have t2: "timeLinked ?h2 ts" using tl h1(4) by (simp add: timeLinked_def)
  let ?s3 = "removeFromTimeList n ?s2"
  have l3: "timeLinked (heap ?s3) (as @ bs)"
    by (rule removeFromTimeList_linked[where n = "nextRef s"]) (use t2 dt at ts in simp_all)
  have f3: "timeFrame ?h2 (heap ?s3)" using removeFromTimeList_frame[of ?s2 n] by simp
  have "\<exists>h. addToTimeListTail n ?s3 = Inr (?s3\<lparr>heap := h\<rparr>) \<and> timeLinked h ((as @ bs) @ [n]) \<and>
             timeFrame (heap ?s3) h"
    by (rule addToTimeListTail_linked[where n = "nextRef s" and i = i])
       (use l3 dt at ts i in \<open>auto intro: allocated_subset[OF at]\<close>)
  then obtain h where h: "addToTimeListTail n ?s3 = Inr (?s3\<lparr>heap := h\<rparr>)"
    "timeLinked h (remove1 n ts @ [n])" "timeFrame (heap ?s3) h" unfolding r by auto
  have f: "timeFrame ?h2 h" by (rule timeFrame_trans[OF f3 h(3)])
  have e3: "?s3\<lparr>heap := h\<rparr> = s\<lparr>heap := h\<rparr>" by (subst removeFromTimeList_eq) simp
  have setr: "FastCacheWithTTL_set now k v s = Inr (s\<lparr>heap := h\<rparr>)"
    using k h1(1) h(1) e3 by (simp add: FastCacheWithTTL_set_def Let_def moveToTimeListTail_def)
  have ir: "lru_inv (s\<lparr>heap := h\<rparr>) (n # remove1 n xs)"
    using lru_inv_timeFrame[OF i2, of h] f by simp
  have "set (n # remove1 n xs) \<subseteq> set (remove1 n ts @ [n])"
    using subset_remove1[OF _ dt sub, of n] li by (auto simp: lru_inv_def)
  moreover have "distinct (remove1 n ts @ [n])" using dt by simp
  moreover have "allocated (nextRef s) (remove1 n ts @ [n])"
    by (rule allocated_subset[OF at]) (use nt set_remove1_subset[of n ts] in auto)
  moreover have pay: "timestamp (h n) = Some ?now" "val (h n) = Some v" "\<forall>r. key (h r) = key (heap s r)"
    "\<forall>r. r \<noteq> n \<longrightarrow> timestamp (h r) = timestamp (heap s r) \<and> val (h r) = val (heap s r)"
    using f h1(3,4) by (simp_all add: timeFrame_def)
  moreover have "\<forall>r \<in> set (n # remove1 n xs). timestamp (h r) \<noteq> None"
    using st pay(1,4) set_remove1_subset[of n xs] by (metis option.distinct(1) set_ConsD subsetD)
  ultimately have "ttl_inv (s\<lparr>heap := h\<rparr>) (n # remove1 n xs) (remove1 n ts @ [n])"
    unfolding ttl_inv_def list_all_iff using ir h(2) by auto
  then show ?thesis using setr pay by blast
qed

lemma ttl_set_new:
  assumes inv: "ttl_inv s xs ts" and k: "map_of (cache s) k = None"
  defines "new \<equiv> Obj (nextRef s)"
  defines "full \<equiv> int (length (cache s)) \<ge> maxSize s"
  shows "\<exists>h c. FastCacheWithTTL_set now k v s =
                 Inr (s\<lparr>cache := c @ [(k, new)], heap := h, nextRef := Suc (nextRef s)\<rparr>) \<and>
           ttl_inv (s\<lparr>cache := c @ [(k, new)], heap := h, nextRef := Suc (nextRef s)\<rparr>)
                   (new # (if full then butlast xs else xs)) (ts @ [new]) \<and>
           (if full then xs \<noteq> [] \<and> (\<exists>kl. key (heap s (last xs)) = Some kl \<and> map_of (cache s) kl = Some (last xs) \<and>
                                      c = AList.delete kl (cache s))
            else c = cache s) \<and>
           key (h new) = Some k \<and> val (h new) = Some v \<and>
           timestamp (h new) = Some (if 0 < ttl s then now else 0) \<and>
           (\<forall>r. r \<noteq> new \<longrightarrow> key (h r) = key (heap s r) \<and> val (h r) = val (heap s r) \<and>
                timestamp (h r) = timestamp (heap s r))"
proof -
  let ?now = "if 0 < ttl s then now else 0"
  let ?xs2 = "if full then butlast xs else xs"
  from inv have li: "lru_inv s xs" and tl: "timeLinked (heap s) ts" and dt: "distinct ts"
    and at: "allocated (nextRef s) ts" and sub: "set xs \<subseteq> set ts"
    and st: "\<forall>r \<in> set xs. timestamp (heap s r) \<noteq> None"
    by (auto simp: ttl_inv_def list_all_iff)
  from lru_set_new[OF li k, of v] obtain h1 c where
    s1: "FastCache_set k v s = Inr (s\<lparr>cache := c @ [(k, new)], heap := h1, nextRef := Suc (nextRef s)\<rparr>)"
    and i1: "lru_inv (s\<lparr>cache := c @ [(k, new)], heap := h1, nextRef := Suc (nextRef s)\<rparr>) (new # ?xs2)"
    and ev: "if full then xs \<noteq> [] \<and> (\<exists>kl. key (heap s (last xs)) = Some kl \<and> map_of (cache s) kl = Some (last xs) \<and>
                                      c = AList.delete kl (cache s))
            else c = cache s"
    and p1: "key (h1 new) = Some k" "val (h1 new) = Some v"
      "\<forall>r. r \<noteq> new \<longrightarrow> key (h1 r) = key (heap s r) \<and> val (h1 r) = val (heap s r) \<and>
                timestamp (h1 r) = timestamp (heap s r) \<and>
                timePrev (h1 r) = timePrev (heap s r) \<and> timeNext (h1 r) = timeNext (heap s r)"
    unfolding new_def full_def by blast
  let ?s1 = "s\<lparr>cache := c @ [(k, new)], heap := h1, nextRef := Suc (nextRef s)\<rparr>"
  have ck: "map_of c k = None" using ev k by (auto simp: AList.delete_conv' split: if_splits)
  have m1: "map_of (cache ?s1) k = Some new" using ck by (simp add: map_add_Some_iff)
  have newts: "new \<notin> set ts" unfolding new_def by (rule allocated_fresh[OF at]) simp
  let ?h2 = "set_timestamp new (Some ?now) h1"
  let ?s2 = "?s1\<lparr>heap := ?h2\<rparr>"
  have i2: "lru_inv ?s2 (new # ?xs2)"
    using lru_inv_set_timestamp[OF i1, of new "Some ?now"] by simp
  have same: "r \<in> set (TimeHead # ts @ [TimeTail]) \<Longrightarrow>
      timeNext (h1 r) = timeNext (heap s r) \<and> timePrev (h1 r) = timePrev (heap s r)" for r
  proof -
    assume "r \<in> set (TimeHead # ts @ [TimeTail])"
    with newts have "r \<noteq> new" by (auto simp: new_def)
    with p1(3) show ?thesis by blast
  qed
  have "timeLinked h1 ts = timeLinked (heap s) ts"
    unfolding timeLinked_def by (rule dll_cong) (use same in auto)
  then have t2: "timeLinked (heap ?s2) ts" using tl by simp
  have "\<exists>h. addToTimeListTail new ?s2 = Inr (?s2\<lparr>heap := h\<rparr>) \<and> timeLinked h (ts @ [new]) \<and>
             timeFrame (heap ?s2) h"
    by (rule addToTimeListTail_linked[where n = "nextRef s" and i = "nextRef s"])
       (use t2 dt at newts in \<open>simp_all add: new_def\<close>)
  then obtain h where h: "addToTimeListTail new ?s2 = Inr (?s2\<lparr>heap := h\<rparr>)"
    "timeLinked h (ts @ [new])" "timeFrame (heap ?s2) h" by blast
  let ?r = "s\<lparr>cache := c @ [(k, new)], heap := h, nextRef := Suc (nextRef s)\<rparr>"
  have e: "?s2\<lparr>heap := h\<rparr> = ?r" by simp
  have "FastCacheWithTTL_set now k v s = addToTimeListTail new ?s2"
    using k s1 m1 by (simp add: FastCacheWithTTL_set_def Let_def)
  also have "\<dots> = Inr (?s2\<lparr>heap := h\<rparr>)" by (rule h(1))
  also have "\<dots> = Inr ?r" by (simp only: e)
  finally have setr: "FastCacheWithTTL_set now k v s = Inr ?r" .
  have f: "timeFrame ?h2 h" using h(3) by simp
  have "lru_inv (?s2\<lparr>heap := h\<rparr>) (new # ?xs2)"
    by (rule lru_inv_timeFrame[OF i2 h(3)])
  then have ir: "lru_inv ?r (new # ?xs2)" by (simp only: e)
  have "set ?xs2 \<subseteq> set ts" using sub by (auto dest: in_set_butlastD)
  then have "set (new # ?xs2) \<subseteq> set (ts @ [new])" by auto
  moreover have "distinct (ts @ [new])" using dt newts by simp
  moreover have "allocated (Suc (nextRef s)) (ts @ [new])"
    using at by (auto simp: allocated_iff new_def less_Suc_eq)
  moreover have pay: "key (h new) = Some k" "val (h new) = Some v" "timestamp (h new) = Some ?now"
    "\<forall>r. r \<noteq> new \<longrightarrow> key (h r) = key (heap s r) \<and> val (h r) = val (heap s r) \<and>
                timestamp (h r) = timestamp (heap s r)"
    using f p1 by (simp_all add: timeFrame_def)
  moreover have "\<forall>r \<in> set (new # ?xs2). timestamp (h r) \<noteq> None"
  proof
    fix r assume r: "r \<in> set (new # ?xs2)"
    show "timestamp (h r) \<noteq> None"
    proof (cases "r = new")
      case True
      with pay(3) show ?thesis by simp
    next
      case False
      with r have "r \<in> set xs" by (auto dest: in_set_butlastD split: if_splits)
      with st pay(4) False show ?thesis by simp
    qed
  qed
  ultimately have tr: "ttl_inv ?r (new # ?xs2) (ts @ [new])"
    unfolding ttl_inv_def list_all_iff using ir h(2) by auto
  show ?thesis using setr tr ev pay by blast
qed

lemma ttl_delete_inv:
  assumes "ttl_inv s xs ts"
  shows "\<exists>xs' ts'. ttl_inv (snd (FastCacheWithTTL_delete k s)) xs' ts'"
proof (cases "map_of (cache s) k")
  case None
  then show ?thesis using assms by (auto simp: FastCacheWithTTL_delete_def)
next
  case (Some n)
  from ttl_delete_hit[OF assms Some] obtain s1 where
    "FastCacheWithTTL_delete k s = (True, s1)" "ttl_inv s1 (remove1 n xs) (remove1 n ts)" by blast
  then show ?thesis by (intro exI[of _ "remove1 n xs"] exI[of _ "remove1 n ts"]) simp
qed

lemma cleanupLoop_inv:
  assumes "cleanupLoop now rc s = Some y"
  shows "(\<exists>xs ts. ttl_inv s xs ts) \<longrightarrow> (\<exists>xs' ts'. ttl_inv (snd y) xs' ts')"
proof (rule cleanupLoop.raw_induct[where P = "\<lambda>now rc s y.
         (\<exists>xs ts. ttl_inv s xs ts) \<longrightarrow> (\<exists>xs' ts'. ttl_inv (snd y) xs' ts')", OF _ assms], goal_cases)
  case (1 loop now rc s y)
  show ?case
  proof
    assume "\<exists>xs ts. ttl_inv s xs ts"
    then obtain xs ts where inv: "ttl_inv s xs ts" by blast
    show "\<exists>xs' ts'. ttl_inv (snd y) xs' ts'"
    proof (cases "timeNext (heap s TimeHead)")
      case None
      with 1(2) have "snd y = s" by auto
      with inv show ?thesis by blast
    next
      case (Some cur)
      show ?thesis
      proof (cases "cur \<noteq> TimeTail \<and> isExpired cur now s")
        case False
        with 1(2) Some have "snd y = s" by (auto split: if_splits)
        with inv show ?thesis by blast
      next
        case True
        let ?s1 = "case key (heap s cur) of None \<Rightarrow> s | Some k \<Rightarrow> snd (FastCacheWithTTL_delete k s)"
        have "\<exists>xs' ts'. ttl_inv ?s1 xs' ts'"
        proof (cases "key (heap s cur)")
          case None
          then show ?thesis using inv by auto
        next
          case (Some k)
          then show ?thesis using ttl_delete_inv[OF inv, of k] by simp
        qed
        then obtain xs1 ts1 where "ttl_inv ?s1 xs1 ts1" by blast
        then have "ttl_inv (?s1\<lparr>expired := expired ?s1 + 1\<rparr>) xs1 ts1" by simp
        then have i1: "\<exists>xs' ts'. ttl_inv (?s1\<lparr>expired := expired ?s1 + 1\<rparr>) xs' ts'" by blast
        from 1(2) Some True have "loop now (rc + 1) (?s1\<lparr>expired := expired ?s1 + 1\<rparr>) = Some y"
          by (simp add: Let_def)
        from 1(1)[OF this] i1 show ?thesis by blast
      qed
    qed
  qed
qed

lemma cleanup_inv:
  "cleanup now s = Some (n, s') \<Longrightarrow> ttl_inv s xs ts \<Longrightarrow> \<exists>xs' ts'. ttl_inv s' xs' ts'"
  using cleanupLoop_inv[of now 0 s "(n, s')"] by (auto simp: cleanup_def split: if_splits)

lemma ttlStep_inv:
  assumes inv: "ttl_inv s xs ts"
  shows "(\<forall>e. ttlStep x s \<noteq> Threw e) \<and> (\<forall>s'. ttlStep x s = Done s' \<longrightarrow> (\<exists>xs' ts'. ttl_inv s' xs' ts'))"
proof (cases x)
  case (TSet now k v)
  show ?thesis
  proof (cases "map_of (cache s) k")
    case None
    from ttl_set_new[OF inv None, of now v] obtain s1 xs1 ts1 where
      "FastCacheWithTTL_set now k v s = Inr s1" "ttl_inv s1 xs1 ts1" by blast
    then show ?thesis unfolding TSet by auto
  next
    case (Some n)
    from ttl_set_existing[OF inv Some, of now v] obtain s1 xs1 ts1 where
      "FastCacheWithTTL_set now k v s = Inr s1" "ttl_inv s1 xs1 ts1" by blast
    then show ?thesis unfolding TSet by auto
  qed
next
  case (TGet now k)
  show ?thesis
  proof (cases "map_of (cache s) k")
    case None
    have "ttl_inv (s\<lparr>misses := misses s + 1\<rparr>) xs ts" using inv by simp
    then show ?thesis unfolding TGet using None by (auto simp: FastCacheWithTTL_get_def)
  next
    case (Some n)
    show ?thesis
    proof (cases "isExpired n now s")
      case True
      from ttl_get_expired[OF inv Some True] obtain r s1 xs1 ts1 where
        "FastCacheWithTTL_get now k s = Inr (r, s1)" "ttl_inv s1 xs1 ts1" by blast
      then show ?thesis unfolding TGet by auto
    next
      case False
      from ttl_get_live[OF inv Some False] obtain r s1 xs1 ts1 where
        "FastCacheWithTTL_get now k s = Inr (r, s1)" "ttl_inv s1 xs1 ts1" by blast
      then show ?thesis unfolding TGet by auto
    qed
  qed
next
  case (TDelete k)
  then show ?thesis using ttl_delete_inv[OF inv, of k] by auto
next
  case (THas now k)
  show ?thesis
  proof (cases "map_of (cache s) k")
    case None
    then show ?thesis unfolding THas using inv by (auto simp: FastCacheWithTTL_has_def)
  next
    case (Some n)
    show ?thesis
    proof (cases "isExpired n now s")
      case True
      from ttl_has_expired[OF inv Some True] obtain r s1 xs1 ts1 where
        "FastCacheWithTTL_has now k s = (r, s1)" "ttl_inv s1 xs1 ts1" by blast
      then show ?thesis unfolding THas by auto
    next
      case False
      then show ?thesis unfolding THas using inv ttl_has_live[OF Some False] by auto
    qed
  qed
next
  case TClear
  then show ?thesis using ttl_clear_inv[OF inv] by auto
next
  case (TCleanup now)
  then show ?thesis using cleanup_inv[OF _ inv] by (auto split: option.splits)
qed

lemma ttlExec_inv:
  "ttl_inv s xs ts \<Longrightarrow>
     (\<forall>e. ttlExec ops s \<noteq> Threw e) \<and> (\<forall>s'. ttlExec ops s = Done s' \<longrightarrow> (\<exists>xs' ts'. ttl_inv s' xs' ts'))"
proof (induction ops arbitrary: s xs ts)
  case Nil
  then show ?case by auto
next
  case (Cons x ops)
  show ?case
  proof (cases "ttlStep x s")
    case (Threw e)
    with ttlStep_inv[OF Cons.prems, of x] show ?thesis by simp
  next
    case Diverged
    then show ?thesis by simp
  next
    case (Done s1)
    with ttlStep_inv[OF Cons.prems, of x] obtain xs1 ts1 where "ttl_inv s1 xs1 ts1" by blast
    from Cons.IH[OF this] Done show ?thesis by simp
  qed
qed

subsection \<open>Reachable states, counters, and the sweep that cannot finish\<close>

lemma step_counts:
  assumes inv: "lru_inv s xs" and st: "step x s = Inr (r, s1)"
  shows "(hits s1, misses s1) = record1 (hits s, misses s) x r"
proof (cases x)
  case (Set k v)
  show ?thesis
  proof (cases "map_of (cache s) k")
    case None
    from lru_set_new[OF inv None, of v] st show ?thesis unfolding Set by auto
  next
    case (Some n)
    from lru_set_existing[OF inv Some, of v] st show ?thesis unfolding Set by auto
  qed
next
  case (Get k)
  show ?thesis
  proof (cases "map_of (cache s) k")
    case None
    with st show ?thesis unfolding Get by (auto simp: lru_get_miss)
  next
    case (Some n)
    from lru_inv_member(3)[OF inv Some] obtain v where "val (heap s n) = Some v" by auto
    with lru_get_hit[OF inv Some] st show ?thesis unfolding Get by auto
  qed
next
  case (Delete k)
  with st show ?thesis by (auto simp: FastCache_delete_def split: option.splits)
next
  case (Has k)
  with st show ?thesis by auto
next
  case Clear
  with st show ?thesis by (auto simp: FastCache_clear_def)
qed

lemma exec_counts:
  "lru_inv s xs \<Longrightarrow> exec ops s = Inr (rs, s') \<Longrightarrow>
     length rs = length ops \<and> (hits s', misses s') = recorded (hits s, misses s) (zip ops rs)"
proof (induction ops arbitrary: s xs rs)
  case Nil
  then show ?case by auto
next
  case (Cons x ops)
  from Cons.prems(2) obtain r s1 rs1 where
    1: "step x s = Inr (r, s1)" "exec ops s1 = Inr (rs1, s')" "rs = r # rs1"
    by (auto split: sum.splits prod.splits)
  from step_inv[OF Cons.prems(1), of x] 1(1) obtain xs1 where i1: "lru_inv s1 xs1" by auto
  from Cons.IH[OF i1 1(2)] step_counts[OF Cons.prems(1) 1(1)] 1(3) show ?case by simp
qed

lemma ttl_reachable_inv:
  assumes "FastCacheWithTTL_new opts = Inr s0" and "ttlExec ops s0 = Done s"
  shows "\<exists>xs ts. ttl_inv s xs ts"
  using ttl_new_inv[OF assms(1)] ttlExec_inv[of s0 "[]" "[]" ops] assms(2) by blast

lemma ttlExec_append:
  "ttlExec (xs @ ys) s =
     (case ttlExec xs s of Threw e \<Rightarrow> Threw e | Diverged \<Rightarrow> Diverged | Done s1 \<Rightarrow> ttlExec ys s1)"
  by (induction xs arbitrary: s) (auto split: outcome.splits)

lemma isExpired_counters [simp]:
  "isExpired r now (s\<lparr>expired := e\<rparr>) = isExpired r now s"
  "isExpired r now (s\<lparr>misses := m\<rparr>) = isExpired r now s"
  "isExpired r now (s\<lparr>hits := h\<rparr>) = isExpired r now s"
  by (simp_all add: isExpired_def)

lemma cleanupLoop_stuck:
  assumes "cleanupLoop now rc s = Some y"
  shows "\<not> (\<exists>cur kc. timeNext (heap s TimeHead) = Some cur \<and> cur \<noteq> TimeTail \<and>
            isExpired cur now s \<and> key (heap s cur) = Some kc \<and> map_of (cache s) kc = None)"
proof (rule cleanupLoop.raw_induct[where P = "\<lambda>now rc s y.
         \<not> (\<exists>cur kc. timeNext (heap s TimeHead) = Some cur \<and> cur \<noteq> TimeTail \<and>
            isExpired cur now s \<and> key (heap s cur) = Some kc \<and> map_of (cache s) kc = None)",
       OF _ assms], goal_cases)
  case (1 loop now rc s y)
  show ?case
  proof
    assume "\<exists>cur kc. timeNext (heap s TimeHead) = Some cur \<and> cur \<noteq> TimeTail \<and>
            isExpired cur now s \<and> key (heap s cur) = Some kc \<and> map_of (cache s) kc = None"
    then obtain cur kc where st: "timeNext (heap s TimeHead) = Some cur" "cur \<noteq> TimeTail"
      "isExpired cur now s" "key (heap s cur) = Some kc" "map_of (cache s) kc = None" by blast
    let ?s' = "s\<lparr>expired := expired s + 1\<rparr>"
    from 1(2) st have "loop now (rc + 1) ?s' = Some y"
      by (simp add: FastCacheWithTTL_delete_def Let_def)
    from 1(1)[OF this] st show False by simp
  qed
qed

lemma isExpired_enabled:
  "0 < ttl s \<Longrightarrow> timestamp (heap s n) = Some t \<Longrightarrow> isExpired n now s \<longleftrightarrow> ttl s < now - t"
  by (simp add: isExpired_def)

lemma ttl_inv_node:
  assumes "ttl_inv s xs ts" "map_of (cache s) k = Some n"
  shows "n \<in> set xs" "n \<in> set ts" "\<exists>t. timestamp (heap s n) = Some t" "\<exists>v. val (heap s n) = Some v"
    "distinct xs" "distinct ts" "length (cache s) = length xs"
proof -
  from assms(1) have li: "lru_inv s xs" by (simp add: ttl_inv_def)
  from lru_inv_member[OF li assms(2)] show n: "n \<in> set xs" and "\<exists>v. val (heap s n) = Some v" by auto
  from assms(1) n show "n \<in> set ts" "\<exists>t. timestamp (heap s n) = Some t"
    by (auto simp: ttl_inv_def list_all_iff)
  from assms(1) show "distinct xs" "distinct ts" by (simp_all add: ttl_inv_def lru_inv_def)
  show "length (cache s) = length xs" by (rule lru_inv_length[OF li])
qed

lemma ttl_set_any:
  assumes inv: "ttl_inv s xs ts"
  shows "\<exists>s' n xs' ts'. FastCacheWithTTL_set now k v s = Inr s' \<and> ttl_inv s' xs' ts' \<and>
           map_of (cache s') k = Some n \<and>
           timestamp (heap s' n) = Some (if 0 < ttl s then now else 0) \<and>
           val (heap s' n) = Some v \<and> ttl s' = ttl s"
proof (cases "map_of (cache s) k")
  case None
  let ?new = "Obj (nextRef s)"
  from ttl_set_new[OF inv None, of now v] obtain h c where
    1: "FastCacheWithTTL_set now k v s =
                 Inr (s\<lparr>cache := c @ [(k, ?new)], heap := h, nextRef := Suc (nextRef s)\<rparr>)"
    and 2: "ttl_inv (s\<lparr>cache := c @ [(k, ?new)], heap := h, nextRef := Suc (nextRef s)\<rparr>)
                   (?new # (if maxSize s \<le> int (length (cache s)) then butlast xs else xs)) (ts @ [?new])"
    and 3: "val (h ?new) = Some v" "timestamp (h ?new) = Some (if 0 < ttl s then now else 0)"
    by blast
  let ?s' = "s\<lparr>cache := c @ [(k, ?new)], heap := h, nextRef := Suc (nextRef s)\<rparr>"
  from 2 have "distinct (map fst (cache ?s'))" by (simp only: ttl_inv_def lru_inv_def)
  then have "map_of (cache ?s') k = Some ?new" by (intro map_of_is_SomeI) simp_all
  with 1 2 3 show ?thesis
    by (intro exI[of _ ?s'] exI[of _ ?new]) auto
next
  case (Some n)
  from ttl_set_existing[OF inv Some, of now v] obtain h where
    1: "FastCacheWithTTL_set now k v s = Inr (s\<lparr>heap := h\<rparr>)"
    and 2: "ttl_inv (s\<lparr>heap := h\<rparr>) (n # remove1 n xs) (remove1 n ts @ [n])"
    and 3: "timestamp (h n) = Some (if 0 < ttl s then now else 0)" "val (h n) = Some v"
    by blast
  with Some show ?thesis by (intro exI[of _ "s\<lparr>heap := h\<rparr>"] exI[of _ n]) auto
qed

subsection \<open>The sweep on a sorted time list, and the entries of the recency list\<close>

lemma filter_remove1_out: "\<not> P a \<Longrightarrow> filter P (remove1 a xs) = filter P xs"
  by (induction xs) auto

lemma isExpired_stamp:
  "ttl s \<noteq> 0 \<Longrightarrow> timestamp (heap s r) \<noteq> None \<Longrightarrow> isExpired r now s \<longleftrightarrow> ttl s < now - stampOf s r"
  by (auto simp: isExpired_def stampOf_def)

lemma isExpired_same:
  "ttl s' = ttl s \<Longrightarrow> \<forall>r. timestamp (heap s' r) = timestamp (heap s r) \<Longrightarrow>
     isExpired r now s' = isExpired r now s"
  by (simp add: isExpired_def)

lemma cleanupLoop_sweep:
  assumes "ttl_inv s xs ts" "set ts \<subseteq> set xs" "sorted (map (stampOf s) ts)" "ttl s \<noteq> 0"
  shows "\<exists>s'. cleanupLoop now rc s = Some (rc + length (filter (\<lambda>r. isExpired r now s) ts), s') \<and>
           ttl_inv s' (filter (\<lambda>r. \<not> isExpired r now s) xs) (filter (\<lambda>r. \<not> isExpired r now s) ts) \<and>
           cache s' = filter (\<lambda>(k, r). \<not> isExpired r now s) (cache s) \<and>
           expired s' = expired s + length (filter (\<lambda>r. isExpired r now s) ts) \<and>
           hits s' = hits s \<and> misses s' = misses s \<and> ttl s' = ttl s \<and>
           (\<forall>r. key (heap s' r) = key (heap s r) \<and> val (heap s' r) = val (heap s r) \<and>
                timestamp (heap s' r) = timestamp (heap s r))"
  using assms
proof (induction ts arbitrary: s xs rc)
  case Nil
  then have li: "lru_inv s xs" and tl: "timeLinked (heap s) []" by (simp_all add: ttl_inv_def)
  from Nil.prems(2) have xs: "xs = []" using Nil.prems(1) by (auto simp: ttl_inv_def list_all_iff)
  from lru_inv_length[OF li] xs have c: "cache s = []" by simp
  from tl have "timeNext (heap s TimeHead) = Some TimeTail" by (simp add: timeLinked_def)
  then have "cleanupLoop now rc s = Some (rc, s)" by (subst cleanupLoop.simps) simp
  with Nil.prems(1) xs c show ?case by simp
next
  case (Cons a ts')
  note inv = Cons.prems(1)
  from inv have li: "lru_inv s xs" and tl: "timeLinked (heap s) (a # ts')" and dt: "distinct (a # ts')"
    and at: "allocated (nextRef s) (a # ts')" and sub: "set xs \<subseteq> set (a # ts')"
    and st: "\<forall>r \<in> set xs. timestamp (heap s r) \<noteq> None"
    by (auto simp: ttl_inv_def list_all_iff)
  from li have dx: "distinct xs" and df: "distinct (map fst (cache s))"
    and cs: "set (map snd (cache s)) = set xs" by (simp_all add: lru_inv_def)
  from tl have hd: "timeNext (heap s TimeHead) = Some a" by (simp add: timeLinked_def)
  from allocated_sentinels[OF at] have an: "a \<noteq> TimeTail" by auto
  from Cons.prems(2) have ax: "a \<in> set xs" by simp
  have stamp: "isExpired r now s \<longleftrightarrow> ttl s < now - stampOf s r" if "r \<in> set xs" for r
    using isExpired_stamp[OF Cons.prems(4)] st that by blast
  show ?case
  proof (cases "isExpired a now s")
    case False
    have none: "\<not> isExpired r now s" if "r \<in> set (a # ts')" for r
    proof -
      from that Cons.prems(3) have "stampOf s a \<le> stampOf s r" by auto
      moreover from that Cons.prems(2) have "r \<in> set xs" by auto
      ultimately show ?thesis using False stamp[OF ax] stamp[of r] by simp
    qed
    then have f1: "filter (\<lambda>r. isExpired r now s) (a # ts') = []"
      and f2: "filter (\<lambda>r. \<not> isExpired r now s) (a # ts') = a # ts'"
      by (simp_all add: filter_empty_conv filter_id_conv del: filter.simps)
    have f3: "filter (\<lambda>r. \<not> isExpired r now s) xs = xs"
      using none sub by (auto simp: filter_id_conv)
    have f4: "filter (\<lambda>(k, r). \<not> isExpired r now s) (cache s) = cache s"
      using none sub cs by (force simp: filter_id_conv)
    have "cleanupLoop now rc s = Some (rc, s)"
      using hd an False by (subst cleanupLoop.simps) simp
    then show ?thesis unfolding f1 f2 f3 f4 using inv by simp
  next
    case True
    from lru_inv_key_of[OF li ax] obtain ka where
      ka: "key (heap s a) = Some ka" "map_of (cache s) ka = Some a" by blast
    from ttl_delete_hit[OF inv ka(2)] obtain h where
      d: "FastCacheWithTTL_delete ka s = (True, s\<lparr>cache := AList.delete ka (cache s), heap := h\<rparr>)"
      and i1: "ttl_inv (s\<lparr>cache := AList.delete ka (cache s), heap := h\<rparr>) (remove1 a xs) (remove1 a (a # ts'))"
      and pay: "\<forall>r. key (h r) = key (heap s r) \<and> val (h r) = val (heap s r) \<and>
                  timestamp (h r) = timestamp (heap s r)"
      by blast
    let ?s1 = "s\<lparr>cache := AList.delete ka (cache s), heap := h, expired := expired s + 1\<rparr>"
    have i1': "ttl_inv ?s1 (remove1 a xs) ts'" using i1 by simp
    have sub1: "set ts' \<subseteq> set (remove1 a xs)"
      using Cons.prems(2) dt dx by (auto simp: set_remove1_eq)
    have same: "stampOf ?s1 = stampOf s" using pay by (simp add: stampOf_def fun_eq_iff)
    have so1: "sorted (map (stampOf ?s1) ts')" unfolding same using Cons.prems(3) by simp
    have ex: "isExpired r now ?s1 = isExpired r now s" for r
      by (rule isExpired_same) (use pay in simp_all)
    from Cons.IH[OF i1' sub1 so1, of "rc + 1"] Cons.prems(4) obtain s' where
      r: "cleanupLoop now (rc + 1) ?s1 = Some (rc + 1 + length (filter (\<lambda>r. isExpired r now s) ts'), s')"
      "ttl_inv s' (filter (\<lambda>r. \<not> isExpired r now s) (remove1 a xs)) (filter (\<lambda>r. \<not> isExpired r now s) ts')"
      "cache s' = filter (\<lambda>(k, r). \<not> isExpired r now s) (AList.delete ka (cache s))"
      "expired s' = expired s + 1 + length (filter (\<lambda>r. isExpired r now s) ts')"
      "hits s' = hits s" "misses s' = misses s" "ttl s' = ttl s"
      "\<forall>r. key (heap s' r) = key (heap s r) \<and> val (heap s' r) = val (heap s r) \<and>
                timestamp (heap s' r) = timestamp (heap s r)"
      unfolding ex using pay by auto
    have loop: "cleanupLoop now rc s = cleanupLoop now (rc + 1) ?s1"
      using hd an True ka(1) d by (subst cleanupLoop.simps) (simp add: Let_def)
    have g1: "filter (\<lambda>r. \<not> isExpired r now s) (remove1 a xs) = filter (\<lambda>r. \<not> isExpired r now s) xs"
      by (rule filter_remove1_out) (use True in simp)
    have g2: "filter (\<lambda>(k, r). \<not> isExpired r now s) (AList.delete ka (cache s)) =
              filter (\<lambda>(k, r). \<not> isExpired r now s) (cache s)"
    proof -
      have "k' \<noteq> ka" if "(k', r) \<in> set (cache s)" "\<not> isExpired r now s" for k' r
      proof
        assume "k' = ka"
        with that(1) df have "map_of (cache s) ka = Some r" by simp
        with ka(2) that(2) True show False by simp
      qed
      then show ?thesis
        unfolding AList.delete_eq filter_filter by (intro filter_cong) auto
    qed
    show ?thesis
      unfolding loop using r True by (simp add: g1 g2)
  qed
qed

lemma sorted_prefix:
  assumes "sorted (map f ts)" and "\<forall>x \<in> set ts. \<forall>y \<in> set ts. f x \<le> f y \<longrightarrow> P y \<longrightarrow> P x"
  shows "takeWhile P ts = filter P ts \<and> dropWhile P ts = filter (\<lambda>r. \<not> P r) ts"
  using assms
proof (induction ts)
  case Nil
  then show ?case by simp
next
  case (Cons a ts)
  from Cons.prems(1) have s': "sorted (map f ts)" and le: "\<forall>r \<in> set ts. f a \<le> f r" by simp_all
  from Cons.prems(2) have a': "\<forall>x \<in> set ts. \<forall>y \<in> set ts. f x \<le> f y \<longrightarrow> P y \<longrightarrow> P x"
    by simp
  note ih = Cons.IH[OF s' a']
  show ?case
  proof (cases "P a")
    case True
    with ih show ?thesis by simp
  next
    case False
    have "\<not> P r" if "r \<in> set ts" for r
    proof
      assume "P r"
      moreover from that le have "f a \<le> f r" by blast
      moreover have "a \<in> set (a # ts)" "r \<in> set (a # ts)" using that by simp_all
      ultimately have "P a" using Cons.prems(2) by blast
      with False show False by simp
    qed
    then have "filter P ts = []" "filter (\<lambda>r. \<not> P r) ts = ts"
      by (simp_all add: filter_empty_conv filter_id_conv)
    with False show ?thesis by simp
  qed
qed

lemma those_map_Some: "those (map (\<lambda>x. Some (f x)) xs) = Some (map f xs)"
  by (induction xs) auto

lemma lru_inv_entry:
  assumes "lru_inv s xs" "r \<in> set xs"
  shows "entry s r = Some (ent s r)"
proof -
  from lru_inv_key_of[OF assms] obtain k where k: "key (heap s r) = Some k" "map_of (cache s) k = Some r"
    by blast
  from lru_inv_member(3)[OF assms(1) k(2)] obtain v where "val (heap s r) = Some v" by auto
  with k show ?thesis by (simp add: entry_def ent_def)
qed

lemma lruEntries_inv: "lru_inv s xs \<Longrightarrow> lruEntries s = Some (map (ent s) xs)"
proof -
  assume i: "lru_inv s xs"
  have "map (entry s) xs = map (\<lambda>r. Some (ent s r)) xs"
    using lru_inv_entry[OF i] by simp
  then have "those (map (entry s) xs) = Some (map (ent s) xs)"
    by (simp only: those_map_Some)
  then show ?thesis by (simp add: lruEntries_def lruList_inv[OF i])
qed

lemma ent_key:
  assumes "lru_inv s xs" "r \<in> set xs"
  shows "fst (ent s r) = k \<longleftrightarrow> map_of (cache s) k = Some r"
proof -
  from lru_inv_key_of[OF assms] obtain k' where k': "key (heap s r) = Some k'" "map_of (cache s) k' = Some r"
    by blast
  show ?thesis
  proof
    assume "fst (ent s r) = k"
    with k' show "map_of (cache s) k = Some r" by (simp add: ent_def)
  next
    assume "map_of (cache s) k = Some r"
    from lru_inv_member(2)[OF assms(1) this] k'(1) show "fst (ent s r) = k" by (simp add: ent_def)
  qed
qed

lemma ent_distinct: "lru_inv s xs \<Longrightarrow> distinct (map fst (map (ent s) xs))"
proof -
  assume i: "lru_inv s xs"
  then have d: "distinct xs" by (simp add: lru_inv_def)
  have "inj_on (\<lambda>r. fst (ent s r)) (set xs)"
  proof (rule inj_onI)
    fix a b assume a: "a \<in> set xs" and b: "b \<in> set xs" and e: "fst (ent s a) = fst (ent s b)"
    from ent_key[OF i a, of "fst (ent s a)"] have "map_of (cache s) (fst (ent s a)) = Some a" by simp
    moreover from ent_key[OF i b, of "fst (ent s a)"] e have "map_of (cache s) (fst (ent s a)) = Some b"
      by simp
    ultimately show "a = b" by simp
  qed
  with d show ?thesis by (simp add: distinct_map comp_def)
qed

lemma ent_lookup:
  assumes i: "lru_inv s xs"
  shows "map_of (map (ent s) xs) k =
           (case map_of (cache s) k of None \<Rightarrow> None | Some n \<Rightarrow> val (heap s n))"
proof (cases "map_of (cache s) k")
  case None
  have "k \<notin> fst ` set (map (ent s) xs)"
  proof
    assume "k \<in> fst ` set (map (ent s) xs)"
    then obtain r where r: "r \<in> set xs" "fst (ent s r) = k" by auto
    from ent_key[OF i r(1), of k] r(2) None show False by simp
  qed
  then have "map_of (map (ent s) xs) k = None" by (simp add: map_of_eq_None_iff)
  with None show ?thesis by simp
next
  case (Some n)
  from lru_inv_member[OF i Some] obtain v where n: "n \<in> set xs" "key (heap s n) = Some k"
    "val (heap s n) = Some v" by auto
  then have "(k, v) \<in> set (map (ent s) xs)" by (force simp: ent_def)
  with ent_distinct[OF i] have "map_of (map (ent s) xs) k = Some v" by (rule map_of_is_SomeI)
  with Some n show ?thesis by simp
qed

lemma ent_delete:
  assumes i: "lru_inv s xs" and k: "map_of (cache s) k = Some n"
  shows "AList.delete k (map (ent s) xs) = map (ent s) (remove1 n xs)"
proof -
  from i have d: "distinct xs" by (simp add: lru_inv_def)
  have "AList.delete k (map (ent s) xs) = map (ent s) (filter (\<lambda>r. k \<noteq> fst (ent s r)) xs)"
    by (simp add: AList.delete_eq filter_map comp_def case_prod_unfold)
  also have "filter (\<lambda>r. k \<noteq> fst (ent s r)) xs = filter (\<lambda>r. r \<noteq> n) xs"
  proof (rule filter_cong[OF refl])
    fix r assume "r \<in> set xs"
    from ent_key[OF i this, of k] k show "(k \<noteq> fst (ent s r)) = (r \<noteq> n)" by auto
  qed
  also have "\<dots> = remove1 n xs"
    using d by (simp add: distinct_remove1_removeAll removeAll_filter_not_eq) (metis (mono_tags))
  finally show ?thesis .
qed

lemma ent_delete_absent:
  assumes i: "lru_inv s xs" and k: "map_of (cache s) k = None"
  shows "AList.delete k (map (ent s) xs) = map (ent s) xs"
proof -
  from ent_lookup[OF i, of k] k have "map_of (map (ent s) xs) k = None" by simp
  then show ?thesis by (simp add: map_of_eq_None_iff del: set_map)
qed

lemma ent_frame:
  "\<forall>r \<in> set xs. key (heap s' r) = key (heap s r) \<and> val (heap s' r) = val (heap s r) \<Longrightarrow>
     map (ent s') xs = map (ent s) xs"
  by (simp add: ent_def)

lemma ent_present:
  assumes i: "lru_inv s xs"
  shows "(map_of (map (ent s) xs) k \<noteq> None) = (map_of (cache s) k \<noteq> None)"
proof (cases "map_of (cache s) k")
  case None
  with ent_lookup[OF i, of k] show ?thesis by simp
next
  case (Some n)
  with ent_lookup[OF i, of k] lru_inv_member(3)[OF i Some] show ?thesis by simp
qed

lemma step_refines:
  assumes i: "lru_inv s xs" and st: "step x s = Inr (r, s')"
  shows "\<exists>xs'. lru_inv s' xs' \<and> maxSize s' = maxSize s \<and>
           spec_step (maxSize s) x (map (ent s) xs) = (r, map (ent s') xs')"
proof (cases x)
  case (Set k v)
  show ?thesis
  proof (cases "map_of (cache s) k")
    case (Some n)
    from lru_set_existing[OF i Some, of v] obtain h where
      h: "FastCache_set k v s = Inr (s\<lparr>heap := h\<rparr>)" "lru_inv (s\<lparr>heap := h\<rparr>) (n # remove1 n xs)"
        "val (h n) = Some v"
        "\<forall>r. key (h r) = key (heap s r) \<and> (r \<noteq> n \<longrightarrow> val (h r) = val (heap s r))"
      by blast
    from st h(1) have s': "s' = s\<lparr>heap := h\<rparr>" and r: "r = RUnit" unfolding Set by auto
    from i have d: "distinct xs" by (simp add: lru_inv_def)
    from lru_inv_member[OF i Some] obtain v0 where n: "key (heap s n) = Some k" "val (heap s n) = Some v0"
      by auto
    have l: "map_of (map (ent s) xs) k = Some v0" using ent_lookup[OF i, of k] Some n by simp
    have "map (ent s') (remove1 n xs) = map (ent s) (remove1 n xs)"
      unfolding s' by (rule ent_frame) (use h(4) d in auto)
    moreover have "ent s' n = (k, v)" using h(3,4) n by (simp add: s' ent_def)
    ultimately have "spec_set (maxSize s) k v (map (ent s) xs) = map (ent s') (n # remove1 n xs)"
      using l ent_delete[OF i Some] by (simp add: spec_set_def)
    with h(2) s' r show ?thesis unfolding Set by (intro exI[of _ "n # remove1 n xs"]) simp
  next
    case None
    let ?new = "Obj (nextRef s)"
    let ?full = "maxSize s \<le> int (length (cache s))"
    let ?xs2 = "if ?full then butlast xs else xs"
    from lru_set_new[OF i None, of v] obtain h c where
      h: "FastCache_set k v s = Inr (s\<lparr>cache := c @ [(k, ?new)], heap := h, nextRef := Suc (nextRef s)\<rparr>)"
        "lru_inv (s\<lparr>cache := c @ [(k, ?new)], heap := h, nextRef := Suc (nextRef s)\<rparr>) (?new # ?xs2)"
        "key (h ?new) = Some k" "val (h ?new) = Some v"
        "\<forall>r. r \<noteq> ?new \<longrightarrow> key (h r) = key (heap s r) \<and> val (h r) = val (heap s r)"
      by blast
    from st h(1) have s': "s' = s\<lparr>cache := c @ [(k, ?new)], heap := h, nextRef := Suc (nextRef s)\<rparr>"
      and r: "r = RUnit" unfolding Set by auto
    from i have a: "allocated (nextRef s) xs" by (simp add: lru_inv_def)
    have fresh: "?new \<notin> set xs" by (rule allocated_fresh[OF a]) simp
    have l: "map_of (map (ent s) xs) k = None" using ent_lookup[OF i, of k] None by simp
    have len: "length (map (ent s) xs) = length (cache s)" using lru_inv_length[OF i] by simp
    have m: "map (ent s') xs = map (ent s) xs"
      unfolding s' by (rule ent_frame) (use h(5) fresh in \<open>simp, metis\<close>)
    have "map (ent s') ?xs2 = (if ?full then butlast (map (ent s) xs) else map (ent s) xs)"
      by (cases ?full) (simp_all only: if_True if_False map_butlast m)
    moreover have "ent s' ?new = (k, v)" using h(3,4) by (simp add: s' ent_def)
    ultimately have "spec_set (maxSize s) k v (map (ent s) xs) = map (ent s') (?new # ?xs2)"
      using l len by (simp add: spec_set_def)
    with h(2) s' r show ?thesis unfolding Set by (intro exI[of _ "?new # ?xs2"]) simp
  qed
next
  case (Get k)
  show ?thesis
  proof (cases "map_of (cache s) k")
    case None
    from st None have s': "s' = s\<lparr>misses := misses s + 1\<rparr>" and r: "r = RValue None"
      unfolding Get by (auto simp: lru_get_miss)
    have "map (ent s') xs = map (ent s) xs" unfolding s' by (simp add: ent_def)
    moreover have "map_of (map (ent s) xs) k = None" using ent_lookup[OF i, of k] None by simp
    ultimately show ?thesis unfolding Get using i s' r
      by (intro exI[of _ xs]) (simp add: spec_get_def)
  next
    case (Some n)
    from lru_get_hit[OF i Some] obtain h where
      h: "FastCache_get k s = Inr (val (heap s n), s\<lparr>heap := h, hits := hits s + 1\<rparr>)"
        "lru_inv (s\<lparr>heap := h, hits := hits s + 1\<rparr>) (n # remove1 n xs)" "lruFrame (heap s) h"
      by blast
    from st h(1) have s': "s' = s\<lparr>heap := h, hits := hits s + 1\<rparr>" and r: "r = RValue (val (heap s n))"
      unfolding Get by auto
    from lru_inv_member[OF i Some] obtain v0 where n: "key (heap s n) = Some k" "val (heap s n) = Some v0"
      "n \<in> set xs" by auto
    have l: "map_of (map (ent s) xs) k = Some v0" using ent_lookup[OF i, of k] Some n by simp
    have "map (ent s') (n # remove1 n xs) = map (ent s) (n # remove1 n xs)"
      unfolding s' by (rule ent_frame) (use h(3) in \<open>simp add: lruFrame_def\<close>)
    moreover have "ent s n = (k, v0)" using n by (simp add: ent_def)
    ultimately have "spec_get k (map (ent s) xs) = (Some v0, map (ent s') (n # remove1 n xs))"
      using l ent_delete[OF i Some] by (simp add: spec_get_def)
    with h(2) s' r n(2) show ?thesis unfolding Get by (intro exI[of _ "n # remove1 n xs"]) simp
  qed
next
  case (Delete k)
  show ?thesis
  proof (cases "map_of (cache s) k")
    case None
    from st None have s': "s' = s" and r: "r = RBool False"
      unfolding Delete by (auto simp: FastCache_delete_def)
    show ?thesis unfolding Delete using i s' r ent_delete_absent[OF i None] ent_present[OF i, of k] None
      by (intro exI[of _ xs]) simp
  next
    case (Some n)
    let ?s1 = "removeNode n (s\<lparr>cache := AList.delete k (cache s)\<rparr>)"
    from st Some have s': "s' = ?s1" and r: "r = RBool True"
      unfolding Delete by (auto simp: FastCache_delete_def)
    have "map (ent s') (remove1 n xs) = map (ent s) (remove1 n xs)"
      unfolding s' by (rule ent_frame) simp
    with lru_delete_inv[OF i Some] s' r ent_delete[OF i Some] ent_present[OF i, of k] Some
    show ?thesis unfolding Delete by (intro exI[of _ "remove1 n xs"]) simp
  qed
next
  case (Has k)
  with st have "s' = s" "r = RBool (map_of (cache s) k \<noteq> None)" by (auto simp: FastCache_has_def)
  with i ent_present[OF i, of k] show ?thesis unfolding Has by (intro exI[of _ xs]) simp
next
  case Clear
  with st have "s' = FastCache_clear s" "r = RUnit" by auto
  with lru_clear_inv[OF i] show ?thesis unfolding Clear
    by (intro exI[of _ "[]"]) (simp add: FastCache_clear_def)
qed

lemma exec_refines:
  "lru_inv s xs \<Longrightarrow> exec ops s = Inr (rs, s') \<Longrightarrow>
     \<exists>xs'. lru_inv s' xs' \<and> spec_exec (maxSize s) ops (map (ent s) xs) = (rs, map (ent s') xs')"
proof (induction ops arbitrary: s xs rs)
  case Nil
  then show ?case by auto
next
  case (Cons x ops)
  from Cons.prems(2) obtain r s1 rs1 where
    1: "step x s = Inr (r, s1)" "exec ops s1 = Inr (rs1, s')" "rs = r # rs1"
    by (auto split: sum.splits prod.splits)
  from step_refines[OF Cons.prems(1) 1(1)] obtain xs1 where
    2: "lru_inv s1 xs1" "maxSize s1 = maxSize s"
       "spec_step (maxSize s) x (map (ent s) xs) = (r, map (ent s1) xs1)" by blast
  from Cons.IH[OF 2(1) 1(2)] 2(2) obtain xs' where
    3: "lru_inv s' xs'" "spec_exec (maxSize s) ops (map (ent s1) xs1) = (rs1, map (ent s') xs')" by auto
  from 2(3) 3 1(3) show ?case by (intro exI[of _ xs']) simp
qed


subsection \<open>The recency list is ordered by last use\<close>

lemma lastUse_snoc:
  "lastUse (ops @ [x]) k = (if uses k x then Suc (length ops) else lastUse ops k)"
  by (simp add: lastUse_def)

lemma lastUse_le: "lastUse ops k \<le> length ops"
  using length_dropWhile_le[of "\<lambda>x. \<not> uses k x" "rev ops"] by (simp add: lastUse_def)

lemma spec_exec_append:
  "spec_exec c (xs @ ys) l =
     (case spec_exec c xs l of (rs, l1) \<Rightarrow>
        (case spec_exec c ys l1 of (rs', l2) \<Rightarrow> (rs @ rs', l2)))"
  by (induction xs arbitrary: l) (auto split: prod.splits)

lemma recency_keep:
  assumes "sorted_wrt (\<lambda>a b. lastUse ops b < lastUse ops a) ks" "\<forall>a\<in>set ks. \<not> uses a x"
  shows "sorted_wrt (\<lambda>a b. lastUse (ops @ [x]) b < lastUse (ops @ [x]) a) ks"
  using assms(1) by (rule sorted_wrt_mono_rel[rotated]) (use assms(2) in \<open>simp add: lastUse_snoc\<close>)

lemma recency_touch:
  assumes s: "sorted_wrt (\<lambda>a b. lastUse ops b < lastUse ops a) ks"
    and u: "uses k x" "\<forall>a\<in>set ks. \<not> uses a x"
  shows "sorted_wrt (\<lambda>a b. lastUse (ops @ [x]) b < lastUse (ops @ [x]) a) (k # ks)"
proof -
  have "lastUse (ops @ [x]) a < lastUse (ops @ [x]) k" if "a \<in> set ks" for a
    using that u lastUse_le[of ops a] by (simp add: lastUse_snoc)
  with recency_keep[OF s u(2)] show ?thesis by simp
qed

lemma keys_delete: "map fst (AList.delete k l) = filter (\<lambda>a. a \<noteq> k) (map fst l)"
  by (induction l) auto

lemma sorted_wrt_butlast: "sorted_wrt R xs \<Longrightarrow> sorted_wrt R (butlast xs)"
  by (simp add: butlast_conv_take sorted_wrt_take)

lemma spec_step_recency:
  assumes s: "sorted_wrt (\<lambda>a b. lastUse ops b < lastUse ops a) (map fst l)"
    and st: "spec_step c x l = (r, l')"
  shows "sorted_wrt (\<lambda>a b. lastUse (ops @ [x]) b < lastUse (ops @ [x]) a) (map fst l')"
proof (cases x)
  case (Set k v)
  have "\<exists>ks. map fst l' = k # ks \<and> k \<notin> set ks \<and>
          sorted_wrt (\<lambda>a b. lastUse ops b < lastUse ops a) ks"
  proof (cases "map_of l k")
    case (Some w)
    with st Set have "map fst l' = k # filter (\<lambda>a. a \<noteq> k) (map fst l)"
      by (auto simp: spec_set_def keys_delete)
    moreover have "sorted_wrt (\<lambda>a b. lastUse ops b < lastUse ops a) (filter (\<lambda>a. a \<noteq> k) (map fst l))"
      using s by (rule sorted_wrt_filter)
    ultimately show ?thesis by simp
  next
    case None
    then have n: "k \<notin> set (map fst l)" by (simp add: map_of_eq_None_iff)
    show ?thesis
    proof (cases "int (length l) \<ge> c")
      case True
      with st Set None have "map fst l' = k # butlast (map fst l)"
        by (auto simp: spec_set_def map_butlast)
      moreover have "k \<notin> set (butlast (map fst l))" using n by (blast dest: in_set_butlastD)
      moreover have "sorted_wrt (\<lambda>a b. lastUse ops b < lastUse ops a) (butlast (map fst l))"
        using s by (rule sorted_wrt_butlast)
      ultimately show ?thesis by simp
    next
      case False
      with st Set None have "map fst l' = k # map fst l" by (auto simp: spec_set_def)
      with n s show ?thesis by simp
    qed
  qed
  then obtain ks where l': "map fst l' = k # ks" and a: "k \<notin> set ks"
    and b: "sorted_wrt (\<lambda>a b. lastUse ops b < lastUse ops a) ks" by (elim exE conjE)
  from a Set have u: "\<forall>a\<in>set ks. \<not> uses a x" by auto
  have "uses k x" using Set by simp
  from recency_touch[OF b this u] show ?thesis unfolding l' .
next
  case (Get k)
  show ?thesis
  proof (cases "map_of l k")
    case None
    with st Get have "l' = l" by (simp add: spec_get_def)
    moreover from None Get have "\<forall>a\<in>set (map fst l). \<not> uses a x"
      by (auto simp: map_of_eq_None_iff)
    ultimately show ?thesis using recency_keep[OF s] by simp
  next
    case (Some v)
    let ?ks = "filter (\<lambda>a. a \<noteq> k) (map fst l)"
    from st Get Some have l': "map fst l' = k # ?ks" by (auto simp: spec_get_def keys_delete)
    have b: "sorted_wrt (\<lambda>a b. lastUse ops b < lastUse ops a) ?ks"
      using s by (simp add: sorted_wrt_filter)
    from Get have u: "\<forall>a\<in>set ?ks. \<not> uses a x" by auto
    have "uses k x" using Get by simp
    from recency_touch[OF b this u] show ?thesis unfolding l' .
  qed
next
  case (Delete k)
  with st have "map fst l' = filter (\<lambda>a. a \<noteq> k) (map fst l)" by (auto simp: keys_delete)
  moreover have "sorted_wrt (\<lambda>a b. lastUse ops b < lastUse ops a) (filter (\<lambda>a. a \<noteq> k) (map fst l))"
    using s by (simp add: sorted_wrt_filter)
  ultimately show ?thesis using recency_keep[of ops _ x] Delete by simp
next
  case (Has k)
  with st have "l' = l" by auto
  then show ?thesis using recency_keep[OF s, of x] Has by simp
next
  case Clear
  with st show ?thesis by auto
qed

lemma spec_exec_recency:
  "spec_exec c ops [] = (rs, l) \<Longrightarrow>
     sorted_wrt (\<lambda>a b. lastUse ops b < lastUse ops a) (map fst l)"
proof (induction ops arbitrary: rs l rule: rev_induct)
  case Nil
  then show ?case by simp
next
  case (snoc x ops)
  obtain rs1 l1 where 1: "spec_exec c ops [] = (rs1, l1)" by (cases "spec_exec c ops []")
  obtain r where 2: "spec_step c x l1 = (r, l)"
    using snoc.prems 1 by (auto simp: spec_exec_append split: prod.splits)
  from spec_step_recency[OF snoc.IH[OF 1] 2] show ?case .
qed

lemma lru_inv_keys:
  assumes "lru_inv s xs"
  shows "lruKeys s = Some (map Some (map fst (map (ent s) xs)))"
    and "set (map fst (map (ent s) xs)) = fst ` set (cache s)"
proof -
  have k: "key (heap s r) = Some (fst (ent s r))" if "r \<in> set xs" for r
    using lru_inv_key_of[OF assms that] by (auto simp: ent_def)
  then show "lruKeys s = Some (map Some (map fst (map (ent s) xs)))"
    by (simp add: lruKeys_def keysOf_def lruList_inv[OF assms])
  show "set (map fst (map (ent s) xs)) = fst ` set (cache s)"
  proof (intro set_eqI iffI)
    fix a assume "a \<in> set (map fst (map (ent s) xs))"
    then obtain r where r: "r \<in> set xs" "a = fst (ent s r)" by auto
    with ent_key[OF assms r(1), of a] have "map_of (cache s) a = Some r" by simp
    then show "a \<in> fst ` set (cache s)" by (force dest: map_of_SomeD)
  next
    fix a assume "a \<in> fst ` set (cache s)"
    then have "a \<in> dom (map_of (cache s))" by (simp add: dom_map_of_conv_image_fst)
    then obtain r where "map_of (cache s) a = Some r" by blast
    with lru_inv_member(1)[OF assms this] ent_key[OF assms, of r a]
    show "a \<in> set (map fst (map (ent s) xs))" by force
  qed
qed

lemma spec_step_keys:
  "spec_step c x l = (r, l') \<Longrightarrow> a \<in> set (map fst l') \<Longrightarrow> a \<in> set (map fst l) \<or> uses a x"
proof (cases x)
  case (Set k v)
  assume "spec_step c x l = (r, l')" "a \<in> set (map fst l')"
  with Set show ?thesis
    by (auto simp: spec_set_def AList.delete_eq image_iff dest!: in_set_butlastD
        split: option.splits if_splits)
next
  case (Get k)
  assume "spec_step c x l = (r, l')" "a \<in> set (map fst l')"
  with Get show ?thesis
    by (auto simp: spec_get_def AList.delete_eq image_iff split: option.splits)
next
  case (Delete k)
  assume "spec_step c x l = (r, l')" "a \<in> set (map fst l')"
  with Delete show ?thesis by (auto simp: AList.delete_eq image_iff)
qed auto

lemma spec_exec_used:
  "spec_exec c ops [] = (rs, l) \<Longrightarrow> a \<in> set (map fst l) \<Longrightarrow> 0 < lastUse ops a"
proof (induction ops arbitrary: rs l rule: rev_induct)
  case Nil
  then show ?case by simp
next
  case (snoc x ops)
  obtain rs1 l1 where 1: "spec_exec c ops [] = (rs1, l1)" by (cases "spec_exec c ops []")
  obtain r where 2: "spec_step c x l1 = (r, l)"
    using snoc.prems(1) 1 by (auto simp: spec_exec_append split: prod.splits)
  from spec_step_keys[OF 2 snoc.prems(2)] snoc.IH[OF 1]
  show ?case by (auto simp: lastUse_snoc)
qed

lemma sorted_wrt_last:
  assumes "sorted_wrt R ks" "distinct ks" "a \<in> set ks" "a \<noteq> last ks"
  shows "R a (last ks)"
proof -
  from assms(3) have ne: "ks \<noteq> []" by auto
  then have e: "ks = butlast ks @ [last ks]" by simp
  with assms(1) have "sorted_wrt R (butlast ks @ [last ks])" by simp
  then have "\<forall>x\<in>set (butlast ks). R x (last ks)" by (simp add: sorted_wrt_append)
  moreover from assms(3,4) e have "a \<in> set (butlast ks)"
    by (metis insert_iff list.simps(15) rotate1.simps(2) set_rotate1)
  ultimately show ?thesis by blast
qed

section \<open>The claims\<close>

lemmas cache_defs =
  FastCache_new_def addToHead_def removeNode_def moveToHead_def removeTail_def
  FastCache_get_def FastCache_set_def FastCache_delete_def FastCache_clear_def FastCache_has_def
  size_of_def capacity_def
  FastCacheWithTTL_new_def isExpired_def addToTimeListTail_def removeFromTimeList_def
  moveToTimeListTail_def FastCacheWithTTL_delete_def FastCacheWithTTL_get_def
  FastCacheWithTTL_set_def FastCacheWithTTL_clear_def FastCacheWithTTL_has_def

lemmas observer_defs = lruList_def timeList_def keysOf_def lruKeys_def timeKeys_def

text \<open>
  C10. \<open>delete\<close> on a key that is not in the index returns \<open>false\<close> and leaves the
  whole state as it was (index, both lists, size and all counters), on the base cache and
  on the TTL cache.
\<close>

theorem delete_absent_is_noop:
  "(map_of (cache s) k = None \<longrightarrow> FastCache_delete k s = (False, s)) \<and>
   (map_of (cache t) k' = None \<longrightarrow> FastCacheWithTTL_delete k' t = (False, t))"
  by (simp add: FastCache_delete_def FastCacheWithTTL_delete_def)

theorem delete_absent_is_noop_witness:
  "\<exists>s0 rs s t0 t.
     (FastCache_new 2 :: error + (string, nat) fastCache) = Inr s0 \<and>
     exec [Set ''a'' 1] s0 = Inr (rs, s) \<and>
     map_of (cache s) ''b'' = None \<and> FastCache_delete ''b'' s = (False, s) \<and>
     (FastCacheWithTTL_new \<lparr>opt_maxSize = 2, opt_ttl = Some 100, opt_autoCleanup = None,
         opt_cleanupInterval = None\<rparr> :: error + (string, nat) fastCacheWithTTL) = Inr t0 \<and>
     ttlExec [TSet 0 ''a'' 1] t0 = Done t \<and>
     map_of (cache t) ''b'' = None \<and> FastCacheWithTTL_delete ''b'' t = (False, t)"
proof -
  obtain s0 :: "(string, nat) fastCache" where s0: "FastCache_new 2 = Inr s0"
    by (simp add: FastCache_new_def)
  obtain rs s where s: "exec [Set ''a'' 1] s0 = Inr (rs, s)" "map_of (cache s) ''b'' = None"
    using s0 by (auto simp: cache_defs setter_defs Let_def)
  obtain t0 :: "(string, nat) fastCacheWithTTL" where t0: "FastCacheWithTTL_new \<lparr>opt_maxSize = 2, opt_ttl = Some 100, opt_autoCleanup = None,
         opt_cleanupInterval = None\<rparr> = Inr t0"
    by (simp add: cache_defs Let_def)
  obtain t where t: "ttlExec [TSet 0 ''a'' 1] t0 = Done t" "map_of (cache t) ''b'' = None"
    using t0 by (auto simp: cache_defs setter_defs Let_def emptyObj_def)
  show ?thesis
    using delete_absent_is_noop[of s "''b''" t "''b''"] s0 s t0 t by blast
qed

text \<open>
  C4. Construction validation. The constructor checks \<open>maxSize\<close> and \<open>ttl\<close> only:
  with \<open>autoCleanup\<close> on and a cleanup interval of 0 it returns a cache whose timer runs
  at interval 0, where the repository's test "should throw for non-positive
  cleanupInterval when autoCleanup enabled" expects the error "cleanupInterval must be
  positive".
\<close>

theorem constructor_accepts_zero_cleanupInterval:
  "\<exists>s. (FastCacheWithTTL_new \<lparr>opt_maxSize = 2, opt_ttl = Some 1000, opt_autoCleanup = Some True,
            opt_cleanupInterval = Some 0\<rparr> :: error + ('k, 'v) fastCacheWithTTL) = Inr s \<and>
       cleanupTimer s = Some 0 \<and> autoCleanup s \<and> ttl s = 1000 \<and> size_of s = 0"
  by (simp add: cache_defs Let_def)

text \<open>
  C6. On a cache of capacity 3, after \<open>set(A); set(B); set(C); get(A); set(D)\<close> the key
  \<open>B\<close> is the one evicted, the live keys are \<open>A\<close>, \<open>C\<close>, \<open>D\<close>, and the recency list
  reads \<open>D, A, C\<close> from head to tail.
\<close>

theorem lru_eviction_order:
  "\<exists>s0 rs1 s1 s.
     (FastCache_new 3 :: error + (string, 'v) fastCache) = Inr s0 \<and>
     exec [Set ''A'' v1, Set ''B'' v2, Set ''C'' v3, Get ''A''] s0 = Inr (rs1, s1) \<and>
     rs1 = [RUnit, RUnit, RUnit, RValue (Some v1)] \<and>
     map fst (cache s1) = [''A'', ''B'', ''C''] \<and>
     lruKeys s1 = Some [Some ''A'', Some ''C'', Some ''B''] \<and>
     step (Set ''D'' v4) s1 = Inr (RUnit, s) \<and>
     set (map fst (cache s)) = {''A'', ''C'', ''D''} \<and>
     map_of (cache s) ''B'' = None \<and>
     lruKeys s = Some [Some ''D'', Some ''A'', Some ''C''] \<and>
     size_of s = 3"
  by (simp add: cache_defs setter_defs observer_defs emptyObj_def Let_def)

text \<open>
  C2. For every capacity \<open>c > 0\<close> and every sequence \<open>ops\<close> of operations on a fresh cache
  (any mix of \<open>set\<close>, \<open>get\<close>, \<open>delete\<close>, \<open>has\<close>, \<open>clear\<close>), the run returns a state with
  \<open>size \<le> c\<close> whose recency list holds exactly the keys of the index, each once, from head
  to tail in strictly decreasing order of last use in \<open>ops\<close>. From that state every \<open>set\<close>
  returns a state with \<open>size \<le> c\<close>: with a key already present the index is unchanged
  (nothing is evicted); with a new key below capacity the node is added and nothing removed;
  with a new key at \<open>size = c\<close> exactly the entry of the node at the tail of the recency list
  leaves the index and the list, its key is the least recently used one (it has been used,
  and every other key of the index has a later last use), and the new node is put at the
  head.
\<close>

theorem capacity_invariant:
  assumes c: "0 < c"
  shows "\<exists>s0 rs s ks.
     FastCache_new c = Inr s0 \<and> exec ops s0 = Inr (rs, s) \<and>
     int (size_of s) \<le> c \<and> capacity s = c \<and>
     lruKeys s = Some (map Some ks) \<and> distinct ks \<and> set ks = fst ` set (cache s) \<and>
     sorted_wrt (\<lambda>a b. lastUse ops b < lastUse ops a) ks \<and>
     (\<forall>k v. \<exists>s'.
        FastCache_set k v s = Inr s' \<and> int (size_of s') \<le> c \<and>
        (map_of (cache s) k \<noteq> None \<longrightarrow> cache s' = cache s) \<and>
        (map_of (cache s) k = None \<and> int (size_of s) < c \<longrightarrow>
           cache s' = cache s @ [(k, Obj (nextRef s))] \<and>
           lruList s' = map_option ((#) (Obj (nextRef s))) (lruList s)) \<and>
        (map_of (cache s) k = None \<and> int (size_of s) = c \<longrightarrow>
           (\<exists>xs lru kl.
              lruList s = Some (xs @ [lru]) \<and> key (heap s lru) = Some kl \<and>
              map_of (cache s) kl = Some lru \<and> 0 < lastUse ops kl \<and>
              (\<forall>k'. map_of (cache s) k' \<noteq> None \<and> k' \<noteq> kl \<longrightarrow> lastUse ops kl < lastUse ops k') \<and>
              cache s' = AList.delete kl (cache s) @ [(k, Obj (nextRef s))] \<and>
              lruList s' = Some (Obj (nextRef s) # xs) \<and>
              size_of s' = size_of s)))"
proof -
  obtain s0 :: "('a, 'b) fastCache" where s0: "FastCache_new c = Inr s0"
    using c by (simp add: FastCache_new_def)
  from lru_new_inv[OF s0] have i0: "lru_inv s0 []" and m0: "maxSize s0 = c" by simp_all
  from exec_inv[OF i0, of ops] obtain rs s where ex: "exec ops s0 = Inr (rs, s)" by auto
  from exec_inv[OF i0, of ops] ex m0 have m: "maxSize s = c" by auto
  from exec_refines[OF i0 ex] m0 obtain xs where
    inv: "lru_inv s xs" and sp: "spec_exec c ops [] = (rs, map (ent s) xs)" by auto
  define ks where "ks = map fst (map (ent s) xs)"
  have srt: "sorted_wrt (\<lambda>a b. lastUse ops b < lastUse ops a) ks"
    unfolding ks_def by (rule spec_exec_recency[OF sp])
  have used: "0 < lastUse ops a" if "a \<in> set ks" for a
    using that unfolding ks_def by (rule spec_exec_used[OF sp])
  have dks: "distinct ks" unfolding ks_def by (rule ent_distinct[OF inv])
  have lk: "lruKeys s = Some (map Some ks)" and sk: "set ks = fst ` set (cache s)"
    unfolding ks_def by (rule lru_inv_keys[OF inv])+
  have len: "length (cache s) = length xs" by (rule lru_inv_length[OF inv])
  from inv have sz: "int (size_of s) \<le> c" using m by (simp add: lru_inv_def size_of_def)
  have l: "lruList s = Some xs" by (rule lruList_inv[OF inv])
  have "\<exists>s'. FastCache_set k v s = Inr s' \<and> int (size_of s') \<le> c \<and>
        (map_of (cache s) k \<noteq> None \<longrightarrow> cache s' = cache s) \<and>
        (map_of (cache s) k = None \<and> int (size_of s) < c \<longrightarrow>
           cache s' = cache s @ [(k, Obj (nextRef s))] \<and>
           lruList s' = map_option ((#) (Obj (nextRef s))) (lruList s)) \<and>
        (map_of (cache s) k = None \<and> int (size_of s) = c \<longrightarrow>
           (\<exists>xs lru kl.
              lruList s = Some (xs @ [lru]) \<and> key (heap s lru) = Some kl \<and>
              map_of (cache s) kl = Some lru \<and> 0 < lastUse ops kl \<and>
              (\<forall>k'. map_of (cache s) k' \<noteq> None \<and> k' \<noteq> kl \<longrightarrow> lastUse ops kl < lastUse ops k') \<and>
              cache s' = AList.delete kl (cache s) @ [(k, Obj (nextRef s))] \<and>
              lruList s' = Some (Obj (nextRef s) # xs) \<and>
              size_of s' = size_of s))" for k v
  proof (cases "map_of (cache s) k")
    case (Some n)
    from lru_set_existing[OF inv Some, of v] obtain h where
      h: "FastCache_set k v s = Inr (s\<lparr>heap := h\<rparr>)" by blast
    then show ?thesis using Some sz by (simp add: size_of_def)
  next
    case None
    let ?new = "Obj (nextRef s)"
    let ?full = "maxSize s \<le> int (length (cache s))"
    from lru_set_new[OF inv None, of v] obtain h c' where
      set: "FastCache_set k v s = Inr (s\<lparr>cache := c' @ [(k, ?new)], heap := h, nextRef := Suc (nextRef s)\<rparr>)"
      and i': "lru_inv (s\<lparr>cache := c' @ [(k, ?new)], heap := h, nextRef := Suc (nextRef s)\<rparr>)
                 (?new # (if ?full then butlast xs else xs))"
      and ev: "if ?full then xs \<noteq> [] \<and> (\<exists>kl. key (heap s (last xs)) = Some kl \<and>
                   map_of (cache s) kl = Some (last xs) \<and> c' = AList.delete kl (cache s))
               else c' = cache s"
      by blast
    let ?s' = "s\<lparr>cache := c' @ [(k, ?new)], heap := h, nextRef := Suc (nextRef s)\<rparr>"
    have l': "lruList ?s' = Some (?new # (if ?full then butlast xs else xs))"
      by (rule lruList_inv[OF i'])
    have sz': "int (size_of ?s') \<le> c" using i' m by (simp add: lru_inv_def size_of_def)
    show ?thesis
    proof (cases ?full)
      case False
      with ev have "c' = cache s" by simp
      with set l' l sz' False m None show ?thesis by (simp add: size_of_def)
    next
      case True
      with ev obtain kl where ne: "xs \<noteq> []" and kl: "key (heap s (last xs)) = Some kl"
        "map_of (cache s) kl = Some (last xs)" "c' = AList.delete kl (cache s)" by auto
      from inv have df: "distinct (map fst (cache s))" and ds: "distinct (map snd (cache s))"
        by (simp_all add: lru_inv_def)
      have "Suc (length c') = length (cache s)"
        unfolding kl(3) by (rule al_delete_facts(3)[OF df ds kl(2)])
      then have same: "size_of ?s' = size_of s" by (simp add: size_of_def)
      have lastk: "last ks = kl" using ne kl(1) by (simp add: ks_def last_map ent_def)
      have "ks \<noteq> []" using ne by (simp add: ks_def)
      then have "last ks \<in> set ks" by (rule last_in_set)
      then have kin: "kl \<in> set ks" by (simp only: lastk)
      have u: "0 < lastUse ops kl" by (rule used[OF kin])
      have least: "lastUse ops kl < lastUse ops k'" if "map_of (cache s) k' \<noteq> None" "k' \<noteq> kl" for k'
      proof -
        from that(1) have "k' \<in> fst ` set (cache s)"
          by (metis map_of_eq_None_iff)
        with sk have "k' \<in> set ks" by simp
        from sorted_wrt_last[OF srt dks this] that(2) lastk show ?thesis by simp
      qed
      have "lruList s = Some (butlast xs @ [last xs])" using l ne by simp
      moreover have "lruList ?s' = Some (?new # butlast xs)" using l' True by simp
      ultimately have "\<exists>xs lru kl.
              lruList s = Some (xs @ [lru]) \<and> key (heap s lru) = Some kl \<and>
              map_of (cache s) kl = Some lru \<and> 0 < lastUse ops kl \<and>
              (\<forall>k'. map_of (cache s) k' \<noteq> None \<and> k' \<noteq> kl \<longrightarrow> lastUse ops kl < lastUse ops k') \<and>
              cache ?s' = AList.delete kl (cache s) @ [(k, ?new)] \<and>
              lruList ?s' = Some (?new # xs) \<and>
              size_of ?s' = size_of s"
        using kl same u least
        by (intro exI[of _ "butlast xs"] exI[of _ "last xs"] exI[of _ kl]) simp
      with set sz' None True m show ?thesis by (simp add: size_of_def)
    qed
  qed
  then have "\<forall>k v. \<exists>s'. FastCache_set k v s = Inr s' \<and> int (size_of s') \<le> c \<and>
        (map_of (cache s) k \<noteq> None \<longrightarrow> cache s' = cache s) \<and>
        (map_of (cache s) k = None \<and> int (size_of s) < c \<longrightarrow>
           cache s' = cache s @ [(k, Obj (nextRef s))] \<and>
           lruList s' = map_option ((#) (Obj (nextRef s))) (lruList s)) \<and>
        (map_of (cache s) k = None \<and> int (size_of s) = c \<longrightarrow>
           (\<exists>xs lru kl.
              lruList s = Some (xs @ [lru]) \<and> key (heap s lru) = Some kl \<and>
              map_of (cache s) kl = Some lru \<and> 0 < lastUse ops kl \<and>
              (\<forall>k'. map_of (cache s) k' \<noteq> None \<and> k' \<noteq> kl \<longrightarrow> lastUse ops kl < lastUse ops k') \<and>
              cache s' = AList.delete kl (cache s) @ [(k, Obj (nextRef s))] \<and>
              lruList s' = Some (Obj (nextRef s) # xs) \<and>
              size_of s' = size_of s))" by blast
  moreover have "capacity s = c" using m by (simp add: capacity_def)
  ultimately show ?thesis using s0 ex sz lk dks sk srt
    by (intro exI[of _ s0] exI[of _ rs] exI[of _ s] exI[of _ ks] conjI)
qed


theorem capacity_invariant_witness:
  "(0::int) < 2 \<and>
   (\<exists>s0 rs s s'.
      (FastCache_new 2 :: error + (string, nat) fastCache) = Inr s0 \<and>
      exec [Set ''a'' 1, Set ''b'' 2, Get ''a'', Set ''a'' 3] s0 = Inr (rs, s) \<and>
      int (size_of s) = 2 \<and> map_of (cache s) ''c'' = None \<and>
      lruKeys s = Some [Some ''a'', Some ''b''] \<and>
      lastUse [Set ''a'' (1::nat), Set ''b'' 2, Get ''a'', Set ''a'' 3] ''a'' = 4 \<and>
      lastUse [Set ''a'' (1::nat), Set ''b'' 2, Get ''a'', Set ''a'' 3] ''b'' = 2 \<and>
      FastCache_set ''c'' 4 s = Inr s' \<and> int (size_of s') \<le> 2 \<and>
      (\<exists>xs lru.
         lruList s = Some (xs @ [lru]) \<and> key (heap s lru) = Some ''b'' \<and>
         cache s' = AList.delete ''b'' (cache s) @ [(''c'', Obj (nextRef s))] \<and>
         lruList s' = Some (Obj (nextRef s) # xs) \<and> size_of s' = size_of s))"
proof -
  let ?ops = "[Set ''a'' (1::nat), Set ''b'' 2, Get ''a'', Set ''a'' 3]"
  have ev: "(FastCache_new 2 :: error + (string, nat) fastCache) = Inr s0 \<Longrightarrow>
      exec ?ops s0 = Inr (rs, s) \<Longrightarrow>
      int (size_of s) = 2 \<and> map_of (cache s) ''c'' = None \<and> map fst (cache s) = [''a'', ''b'']"
    for s0 rs s
    by (auto simp: cache_defs setter_defs emptyObj_def Let_def)
  have lu: "lastUse ?ops ''a'' = 4" "lastUse ?ops ''b'' = 2" by (simp_all add: lastUse_def)
  from capacity_invariant[of 2 ?ops]
  obtain s0 :: "(string, nat) fastCache" and rs s ks where
    1: "FastCache_new 2 = Inr s0" "exec ?ops s0 = Inr (rs, s)"
    and dk: "distinct ks"
    and k: "lruKeys s = Some (map Some ks)" "set ks = fst ` set (cache s)"
      "sorted_wrt (\<lambda>a b. lastUse ?ops b < lastUse ?ops a) ks"
    and 2: "\<forall>k v. \<exists>s'.
        FastCache_set k v s = Inr s' \<and> int (size_of s') \<le> 2 \<and>
        (map_of (cache s) k \<noteq> None \<longrightarrow> cache s' = cache s) \<and>
        (map_of (cache s) k = None \<and> int (size_of s) < 2 \<longrightarrow>
           cache s' = cache s @ [(k, Obj (nextRef s))] \<and>
           lruList s' = map_option ((#) (Obj (nextRef s))) (lruList s)) \<and>
        (map_of (cache s) k = None \<and> int (size_of s) = 2 \<longrightarrow>
           (\<exists>xs lru kl.
              lruList s = Some (xs @ [lru]) \<and> key (heap s lru) = Some kl \<and>
              map_of (cache s) kl = Some lru \<and> 0 < lastUse ?ops kl \<and>
              (\<forall>k'. map_of (cache s) k' \<noteq> None \<and> k' \<noteq> kl \<longrightarrow> lastUse ?ops kl < lastUse ?ops k') \<and>
              cache s' = AList.delete kl (cache s) @ [(k, Obj (nextRef s))] \<and>
              lruList s' = Some (Obj (nextRef s) # xs) \<and>
              size_of s' = size_of s))"
    by auto
  from ev[OF 1] have 3: "int (size_of s) = 2" "map_of (cache s) ''c'' = None"
    and keys: "map fst (cache s) = [''a'', ''b'']" by simp_all
  from 2 3 obtain s' xs lru kl where 4: "FastCache_set ''c'' 4 s = Inr s'" "int (size_of s') \<le> 2"
    and 5: "lruList s = Some (xs @ [lru])" "key (heap s lru) = Some kl"
      "cache s' = AList.delete kl (cache s) @ [(''c'', Obj (nextRef s))]"
      "lruList s' = Some (Obj (nextRef s) # xs)" "size_of s' = size_of s"
    and 6: "map_of (cache s) kl = Some lru"
      "\<forall>k'. map_of (cache s) k' \<noteq> None \<and> k' \<noteq> kl \<longrightarrow> lastUse ?ops kl < lastUse ?ops k'"
    by blast
  have "set (map fst (cache s)) = {''a'', ''b''}" by (simp only: keys) simp
  then have img: "fst ` set (cache s) = {''a'', ''b''}" by (simp only: set_map)
  have dom: "map_of (cache s) k' \<noteq> None \<longleftrightarrow> k' = ''a'' \<or> k' = ''b''" for k'
    unfolding map_of_eq_None_iff img by simp
  have "kl = ''b''"
  proof (rule ccontr)
    assume n: "kl \<noteq> ''b''"
    with 6(1) dom[of kl] have "kl = ''a''" by simp
    moreover from 6(2) n dom[of "''b''"] have "lastUse ?ops kl < lastUse ?ops ''b''" by simp
    ultimately show False using lu by simp
  qed
  with 5 have 7: "\<exists>xs lru.
         lruList s = Some (xs @ [lru]) \<and> key (heap s lru) = Some ''b'' \<and>
         cache s' = AList.delete ''b'' (cache s) @ [(''c'', Obj (nextRef s))] \<and>
         lruList s' = Some (Obj (nextRef s) # xs) \<and> size_of s' = size_of s" by blast
  have ks: "ks = [''a'', ''b'']"
  proof -
    from k(2) img have s: "set ks = {''a'', ''b''}" by simp
    have "length ks = card (set ks)" using dk by (simp add: distinct_card)
    also have "\<dots> = 2" unfolding s by simp
    finally have "length ks = 2" .
    then obtain x y where xy: "ks = [x, y]" by (auto simp: length_Suc_conv numeral_2_eq_2)
    with k(3) have "lastUse ?ops y < lastUse ?ops x" by simp
    moreover from s xy have "(x = ''a'' \<and> y = ''b'') \<or> (x = ''b'' \<and> y = ''a'')"
      by (auto simp: doubleton_eq_iff)
    ultimately have "x = ''a'' \<and> y = ''b''" using lu by auto
    with xy show ?thesis by simp
  qed
  have 8: "lruKeys s = Some [Some ''a'', Some ''b'']" using k(1) ks by simp
  have 0: "(0::int) < 2" by simp
  show ?thesis using 0 1 3 8 lu 4 7 by (intro conjI exI[of _ s0] exI[of _ rs] exI[of _ s] exI[of _ s'])
qed

text \<open>
  C9. After every sequence of operations on a fresh cache, \<open>getStats\<close> reports as
  \<open>hits\<close> the number of \<open>get\<close> calls that returned a value and as \<open>misses\<close> the number
  that returned \<open>undefined\<close> (both counted since the last \<open>clear\<close>), and \<open>hitRate\<close> is
  \<open>hits / (hits + misses)\<close> when that sum is positive and 0 otherwise.
\<close>

theorem stats_correct:
  assumes c: "0 < c"
  shows "\<exists>s0 rs s.
     FastCache_new c = Inr s0 \<and> exec ops s0 = Inr (rs, s) \<and> length rs = length ops \<and>
     stats_hits (FastCache_getStats s) = fst (recorded (0, 0) (zip ops rs)) \<and>
     stats_misses (FastCache_getStats s) = snd (recorded (0, 0) (zip ops rs)) \<and>
     stats_hitRate (FastCache_getStats s) =
       (if stats_hits (FastCache_getStats s) + stats_misses (FastCache_getStats s) > 0
        then real (stats_hits (FastCache_getStats s)) /
             real (stats_hits (FastCache_getStats s) + stats_misses (FastCache_getStats s))
        else 0)"
proof -
  obtain s0 :: "('a, 'b) fastCache" where s0: "FastCache_new c = Inr s0"
    using c by (simp add: FastCache_new_def)
  from lru_new_inv[OF s0] have i0: "lru_inv s0 []" and z: "hits s0 = 0" "misses s0 = 0" by simp_all
  from exec_inv[OF i0, of ops] obtain rs s where ex: "exec ops s0 = Inr (rs, s)" by auto
  from exec_counts[OF i0 ex] z have
    "length rs = length ops" "(hits s, misses s) = recorded (0, 0) (zip ops rs)" by simp_all
  then have "length rs = length ops" "hits s = fst (recorded (0, 0) (zip ops rs))"
    "misses s = snd (recorded (0, 0) (zip ops rs))"
    by (simp_all add: prod_eq_iff)
  with s0 ex show ?thesis by (intro exI[of _ s0] exI[of _ rs] exI[of _ s]) (simp add: FastCache_getStats_def Let_def)
qed

theorem stats_correct_witness:
  "(0::int) < 3 \<and>
   (\<exists>s0 rs s.
      (FastCache_new 3 :: error + (string, nat) fastCache) = Inr s0 \<and>
      exec [Set ''key1'' 1, Set ''key2'' 2, Get ''key1'', Get ''key1'', Get ''nonexistent''] s0 = Inr (rs, s) \<and>
      rs = [RUnit, RUnit, RValue (Some 1), RValue (Some 1), RValue None] \<and>
      stats_hits (FastCache_getStats s) = 2 \<and>
      stats_misses (FastCache_getStats s) = 1 \<and>
      stats_hitRate (FastCache_getStats s) = 2 / 3)"
proof -
  let ?ops = "[Set ''key1'' (1::nat), Set ''key2'' 2, Get ''key1'', Get ''key1'', Get ''nonexistent'']"
  have ev: "(FastCache_new 3 :: error + (string, nat) fastCache) = Inr s0 \<Longrightarrow>
      exec ?ops s0 = Inr (rs, s) \<Longrightarrow>
      rs = [RUnit, RUnit, RValue (Some 1), RValue (Some 1), RValue None]" for s0 rs s
    by (auto simp: cache_defs setter_defs emptyObj_def Let_def)
  from stats_correct[of 3 ?ops]
  obtain s0 :: "(string, nat) fastCache" and rs s where
    1: "FastCache_new 3 = Inr s0" "exec ?ops s0 = Inr (rs, s)"
    and 2: "stats_hits (FastCache_getStats s) = fst (recorded (0, 0) (zip ?ops rs))"
      "stats_misses (FastCache_getStats s) = snd (recorded (0, 0) (zip ?ops rs))"
    and 3: "stats_hitRate (FastCache_getStats s) =
       (if stats_hits (FastCache_getStats s) + stats_misses (FastCache_getStats s) > 0
        then real (stats_hits (FastCache_getStats s)) /
             real (stats_hits (FastCache_getStats s) + stats_misses (FastCache_getStats s))
        else 0)"
    by auto
  have rs: "rs = [RUnit, RUnit, RValue (Some 1), RValue (Some 1), RValue None]" by (rule ev[OF 1])
  have h: "stats_hits (FastCache_getStats s) = 2" "stats_misses (FastCache_getStats s) = 1"
    using 2 unfolding rs by simp_all
  have "stats_hitRate (FastCache_getStats s) = 2 / 3" using 3 unfolding h by simp
  moreover have "(0::int) < 3" by simp
  ultimately show ?thesis using 1 rs h by blast
qed

text \<open>
  C1. The scenario of the repository's test "should not leave TTL dangling nodes after LRU
  eviction": capacity 2, \<open>set(a); set(b); set(c)\<close>. The eviction of \<open>a\<close> inside
  \<open>set(c)\<close> takes its node out of the index and the recency list only; the time list
  still reads \<open>a, b, c\<close>, so a node of the time list is in neither the index nor the
  recency list.
\<close>

theorem eviction_leaves_node_in_time_list:
  "\<exists>s0 s.
     (FastCacheWithTTL_new \<lparr>opt_maxSize = 2, opt_ttl = Some 60000, opt_autoCleanup = None,
        opt_cleanupInterval = None\<rparr> :: error + (string, nat) fastCacheWithTTL) = Inr s0 \<and>
     ttlExec [TSet 0 ''a'' 1, TSet 0 ''b'' 2, TSet 0 ''c'' 3] s0 = Done s \<and>
     map fst (cache s) = [''b'', ''c''] \<and>
     lruKeys s = Some [Some ''c'', Some ''b''] \<and>
     timeKeys s = Some [Some ''a'', Some ''b'', Some ''c''] \<and>
     timeList s = Some [Obj 0, Obj 1, Obj 2] \<and>
     map snd (cache s) = [Obj 1, Obj 2]"
  by (simp add: cache_defs setter_defs observer_defs emptyObj_def Let_def)

text \<open>
  C5. In the same state, \<open>cleanup()\<close> called once the evicted node's age exceeds \<open>ttl\<close>
  never returns: the head of the time list is the evicted node, \<open>delete\<close> of its key
  finds nothing in the index and unlinks nothing, and the loop reads the same head again.
\<close>

theorem cleanup_never_returns_after_eviction:
  "\<exists>s0 s.
     (FastCacheWithTTL_new \<lparr>opt_maxSize = 2, opt_ttl = Some 60000, opt_autoCleanup = None,
        opt_cleanupInterval = None\<rparr> :: error + (string, nat) fastCacheWithTTL) = Inr s0 \<and>
     ttlExec [TSet 0 ''a'' 1, TSet 0 ''b'' 2, TSet 0 ''c'' 3] s0 = Done s \<and>
     cleanup 60001 s = None \<and>
     ttlExec [TSet 0 ''a'' 1, TSet 0 ''b'' 2, TSet 0 ''c'' 3, TCleanup 60001] s0 = Diverged"
proof -
  obtain s0 :: "(string, nat) fastCacheWithTTL" and s where
    1: "FastCacheWithTTL_new \<lparr>opt_maxSize = 2, opt_ttl = Some 60000, opt_autoCleanup = None,
        opt_cleanupInterval = None\<rparr> = Inr s0"
       "ttlExec [TSet 0 ''a'' 1, TSet 0 ''b'' 2, TSet 0 ''c'' 3] s0 = Done s"
    and 2: "timeNext (heap s TimeHead) = Some (Obj 0)" "isExpired (Obj 0) 60001 s"
       "key (heap s (Obj 0)) = Some ''a''" "map_of (cache s) ''a'' = None" "ttl s \<noteq> 0"
    by (simp add: cache_defs setter_defs emptyObj_def Let_def)
  have "cleanupLoop 60001 0 s = None"
  proof (cases "cleanupLoop 60001 0 s")
    case (Some y)
    from cleanupLoop_stuck[OF Some] 2 show ?thesis by blast
  qed simp
  then have c: "cleanup 60001 s = None" using 2(5) by (simp add: cleanup_def)
  have "ttlExec ([TSet 0 ''a'' 1, TSet 0 ''b'' 2, TSet 0 ''c'' 3] @ [TCleanup 60001]) s0 = Diverged"
    unfolding ttlExec_append 1(2) using c by simp
  with 1 c show ?thesis by auto
qed

text \<open>
  C3. In every state a TTL cache with TTL enabled reaches, a key of the index has a node
  with a timestamp \<open>t\<close>, and that node is in both lists. If \<open>now - t > ttl\<close>, \<open>get\<close>
  returns \<open>undefined\<close>, the node leaves the index, the recency list and the time list
  (nothing else moves), \<open>size\<close> drops by one, and \<open>misses\<close> and \<open>expired\<close> grow by one
  while \<open>hits\<close> stays. Otherwise \<open>get\<close> returns the stored value and only \<open>hits\<close>
  grows, by one.
\<close>

theorem lazy_expiration_on_get:
  assumes new: "FastCacheWithTTL_new opts = Inr s0" and run: "ttlExec ops s0 = Done s"
    and en: "0 < ttl s" and k: "map_of (cache s) k = Some n"
  shows "\<exists>t xs ts.
     timestamp (heap s n) = Some t \<and> lruList s = Some xs \<and> timeList s = Some ts \<and>
     n \<in> set xs \<and> n \<in> set ts \<and>
     (ttl s < now - t \<longrightarrow>
        (\<exists>s'. FastCacheWithTTL_get now k s = Inr (None, s') \<and>
              cache s' = AList.delete k (cache s) \<and> map_of (cache s') k = None \<and>
              lruList s' = Some (remove1 n xs) \<and> n \<notin> set (remove1 n xs) \<and>
              timeList s' = Some (remove1 n ts) \<and> n \<notin> set (remove1 n ts) \<and>
              size_of s' + 1 = size_of s \<and>
              misses s' = misses s + 1 \<and> expired s' = expired s + 1 \<and> hits s' = hits s)) \<and>
     (\<not> ttl s < now - t \<longrightarrow>
        (\<exists>s' v. FastCacheWithTTL_get now k s = Inr (Some v, s') \<and> val (heap s n) = Some v \<and>
              hits s' = hits s + 1 \<and> misses s' = misses s \<and> expired s' = expired s \<and>
              cache s' = cache s))"
proof -
  from ttl_reachable_inv[OF new run] obtain xs ts where inv: "ttl_inv s xs ts" by blast
  from ttl_inv_node[OF inv k] obtain t v where n: "n \<in> set xs" "n \<in> set ts"
    and t: "timestamp (heap s n) = Some t" and v: "val (heap s n) = Some v"
    and d: "distinct xs" "distinct ts" and len: "length (cache s) = length xs" by blast
  have lx: "lruList s = Some xs" using inv by (simp add: ttl_inv_def lruList_inv)
  have lt: "timeList s = Some ts" by (rule timeList_inv[OF inv])
  have a: "\<exists>s'. FastCacheWithTTL_get now k s = Inr (None, s') \<and>
              cache s' = AList.delete k (cache s) \<and> map_of (cache s') k = None \<and>
              lruList s' = Some (remove1 n xs) \<and> n \<notin> set (remove1 n xs) \<and>
              timeList s' = Some (remove1 n ts) \<and> n \<notin> set (remove1 n ts) \<and>
              size_of s' + 1 = size_of s \<and>
              misses s' = misses s + 1 \<and> expired s' = expired s + 1 \<and> hits s' = hits s"
    if "ttl s < now - t"
  proof -
    from that have e: "isExpired n now s" using isExpired_enabled[OF en t] by simp
    from ttl_get_expired[OF inv k e] obtain h where
      g: "FastCacheWithTTL_get now k s =
               Inr (None, s\<lparr>cache := AList.delete k (cache s), heap := h,
                             misses := misses s + 1, expired := expired s + 1\<rparr>)"
      and i': "ttl_inv (s\<lparr>cache := AList.delete k (cache s), heap := h,
                        misses := misses s + 1, expired := expired s + 1\<rparr>)
                     (remove1 n xs) (remove1 n ts)" by blast
    let ?s' = "s\<lparr>cache := AList.delete k (cache s), heap := h,
                             misses := misses s + 1, expired := expired s + 1\<rparr>"
    have "lruList ?s' = Some (remove1 n xs)" using i' by (simp add: ttl_inv_def lruList_inv)
    moreover have "timeList ?s' = Some (remove1 n ts)" by (rule timeList_inv[OF i'])
    moreover have "lru_inv ?s' (remove1 n xs)" using i' by (simp add: ttl_inv_def)
    then have "length (cache ?s') = length (remove1 n xs)" by (rule lru_inv_length)
    then have "size_of ?s' + 1 = size_of s"
      using len n(1) by (simp add: size_of_def length_remove1) (metis One_nat_def Suc_pred length_pos_if_in_set)
    moreover have "n \<notin> set (remove1 n xs)" "n \<notin> set (remove1 n ts)" using d by simp_all
    moreover have "map_of (cache ?s') k = None" by (simp add: AList.delete_conv')
    ultimately show ?thesis using g by (intro exI[of _ ?s']) simp
  qed
  have b: "\<exists>s' v. FastCacheWithTTL_get now k s = Inr (Some v, s') \<and> val (heap s n) = Some v \<and>
              hits s' = hits s + 1 \<and> misses s' = misses s \<and> expired s' = expired s \<and>
              cache s' = cache s"
    if "\<not> ttl s < now - t"
  proof -
    from that have e: "\<not> isExpired n now s" using isExpired_enabled[OF en t] by simp
    from ttl_get_live[OF inv k e] obtain h where
      "FastCacheWithTTL_get now k s = Inr (val (heap s n), s\<lparr>heap := h, hits := hits s + 1\<rparr>)"
      by blast
    with v show ?thesis by (intro exI[of _ "s\<lparr>heap := h, hits := hits s + 1\<rparr>"] exI[of _ v]) simp
  qed
  from a b t lx lt n show ?thesis by blast
qed

theorem lazy_expiration_on_get_witness:
  "\<exists>s0 s. (FastCacheWithTTL_new \<lparr>opt_maxSize = 3, opt_ttl = Some 100, opt_autoCleanup = Some False,
              opt_cleanupInterval = None\<rparr> :: error + (string, nat) fastCacheWithTTL) = Inr s0 \<and>
     ttlExec [TSet 1000 ''key1'' 1] s0 = Done s \<and>
     0 < ttl s \<and> map_of (cache s) ''key1'' = Some (Obj 0) \<and>
     timestamp (heap s (Obj 0)) = Some 1000 \<and> ttl s < 1150 - 1000 \<and> \<not> ttl s < 1050 - 1000 \<and>
     (\<exists>s'. FastCacheWithTTL_get 1150 ''key1'' s = Inr (None, s') \<and>
           map_of (cache s') ''key1'' = None \<and> size_of s' + 1 = size_of s \<and>
           misses s' = misses s + 1 \<and> expired s' = expired s + 1 \<and> hits s' = hits s) \<and>
     (\<exists>s'. FastCacheWithTTL_get 1050 ''key1'' s = Inr (Some 1, s') \<and>
           hits s' = hits s + 1 \<and> misses s' = misses s \<and> expired s' = expired s)"
proof -
  obtain s0 :: "(string, nat) fastCacheWithTTL" and s where
    1: "FastCacheWithTTL_new \<lparr>opt_maxSize = 3, opt_ttl = Some 100, opt_autoCleanup = Some False,
              opt_cleanupInterval = None\<rparr> = Inr s0"
       "ttlExec [TSet 1000 ''key1'' 1] s0 = Done s"
    and 2: "0 < ttl s" "map_of (cache s) ''key1'' = Some (Obj 0)" "ttl s = 100"
       "timestamp (heap s (Obj 0)) = Some 1000" "val (heap s (Obj 0)) = Some 1"
    by (simp add: cache_defs setter_defs emptyObj_def Let_def)
  from lazy_expiration_on_get[OF 1 2(1,2), of 1150] 2(3,4)
  have a: "\<exists>s'. FastCacheWithTTL_get 1150 ''key1'' s = Inr (None, s') \<and>
           map_of (cache s') ''key1'' = None \<and> size_of s' + 1 = size_of s \<and>
           misses s' = misses s + 1 \<and> expired s' = expired s + 1 \<and> hits s' = hits s"
    by auto
  from lazy_expiration_on_get[OF 1 2(1,2), of 1050] 2(3,4,5)
  have b: "\<exists>s'. FastCacheWithTTL_get 1050 ''key1'' s = Inr (Some 1, s') \<and>
           hits s' = hits s + 1 \<and> misses s' = misses s \<and> expired s' = expired s"
    by auto
  have "ttl s < 1150 - 1000" "\<not> ttl s < 1050 - 1000" using 2(3) by simp_all
  with 1 2 a b show ?thesis by blast
qed

text \<open>
  C7. In every state a TTL cache with TTL enabled reaches, \<open>set\<close> on a present key
  stamps its node with the current time and moves it to the tail of the time list, so the
  node expires \<open>ttl\<close> after this call. With \<open>ttl = 100\<close>: a key set at \<open>T0\<close> and set
  again at \<open>T0 + 80\<close> is present at \<open>T0 + 130\<close> (for \<open>has\<close> and for \<open>get\<close>) and absent
  at \<open>T0 + 181\<close>.
\<close>

theorem ttl_refresh_on_overwrite:
  assumes new: "FastCacheWithTTL_new opts = Inr s0" and run: "ttlExec ops s0 = Done s"
    and en: "0 < ttl s"
  shows "(\<forall>n. map_of (cache s) k = Some n \<longrightarrow>
           (\<exists>s' ts. FastCacheWithTTL_set now k v s = Inr s' \<and>
              map_of (cache s') k = Some n \<and> val (heap s' n) = Some v \<and>
              timestamp (heap s' n) = Some now \<and>
              timeList s = Some ts \<and> n \<in> set ts \<and> timeList s' = Some (remove1 n ts @ [n]) \<and>
              (\<forall>later. isExpired n later s' \<longleftrightarrow> ttl s < later - now))) \<and>
         (ttl s = 100 \<longrightarrow>
           (\<exists>s1 s2 s3 s4 s5.
              FastCacheWithTTL_set T0 k v1 s = Inr s1 \<and>
              FastCacheWithTTL_set (T0 + 80) k v2 s1 = Inr s2 \<and>
              FastCacheWithTTL_has (T0 + 130) k s2 = (True, s2) \<and>
              FastCacheWithTTL_get (T0 + 130) k s2 = Inr (Some v2, s3) \<and>
              FastCacheWithTTL_has (T0 + 181) k s3 = (False, s4) \<and> map_of (cache s4) k = None \<and>
              FastCacheWithTTL_get (T0 + 181) k s3 = Inr (None, s5) \<and> map_of (cache s5) k = None))"
proof (intro conjI allI impI)
  fix n assume k: "map_of (cache s) k = Some n"
  from ttl_reachable_inv[OF new run] obtain xs ts where inv: "ttl_inv s xs ts" by blast
  from ttl_inv_node[OF inv k] have n: "n \<in> set ts" by blast
  from ttl_set_existing[OF inv k, of now v] en obtain h where
    1: "FastCacheWithTTL_set now k v s = Inr (s\<lparr>heap := h\<rparr>)"
    and 2: "ttl_inv (s\<lparr>heap := h\<rparr>) (n # remove1 n xs) (remove1 n ts @ [n])"
    and 3: "timestamp (h n) = Some now" "val (h n) = Some v"
    by auto
  have "timeList (s\<lparr>heap := h\<rparr>) = Some (remove1 n ts @ [n])" by (rule timeList_inv[OF 2])
  moreover have "timeList s = Some ts" by (rule timeList_inv[OF inv])
  moreover have "\<forall>later. isExpired n later (s\<lparr>heap := h\<rparr>) \<longleftrightarrow> ttl s < later - now"
    using en 3 by (simp add: isExpired_def)
  ultimately show "\<exists>s' ts. FastCacheWithTTL_set now k v s = Inr s' \<and>
              map_of (cache s') k = Some n \<and> val (heap s' n) = Some v \<and>
              timestamp (heap s' n) = Some now \<and>
              timeList s = Some ts \<and> n \<in> set ts \<and> timeList s' = Some (remove1 n ts @ [n]) \<and>
              (\<forall>later. isExpired n later s' \<longleftrightarrow> ttl s < later - now)"
    using 1 3 k n by (intro exI[of _ "s\<lparr>heap := h\<rparr>"] exI[of _ ts]) simp
next
  assume t: "ttl s = 100"
  from ttl_reachable_inv[OF new run] obtain xs ts where inv: "ttl_inv s xs ts" by blast
  from ttl_set_any[OF inv, of T0 k v1] obtain s1 xs1 ts1 where
    s1: "FastCacheWithTTL_set T0 k v1 s = Inr s1" "ttl_inv s1 xs1 ts1" "ttl s1 = ttl s" by blast
  from ttl_set_any[OF s1(2), of "T0 + 80" k v2] s1(3) t obtain s2 n xs2 ts2 where
    s2: "FastCacheWithTTL_set (T0 + 80) k v2 s1 = Inr s2" "ttl_inv s2 xs2 ts2"
      "map_of (cache s2) k = Some n" "timestamp (heap s2 n) = Some (T0 + 80)"
      "val (heap s2 n) = Some v2" "ttl s2 = 100" by auto
  have live: "\<not> isExpired n (T0 + 130) s2" using s2(4,6) by (simp add: isExpired_def)
  have has1: "FastCacheWithTTL_has (T0 + 130) k s2 = (True, s2)"
    by (rule ttl_has_live[OF s2(3) live])
  from ttl_get_live[OF s2(2,3) live] obtain h where
    g: "FastCacheWithTTL_get (T0 + 130) k s2 = Inr (val (heap s2 n), s2\<lparr>heap := h, hits := hits s2 + 1\<rparr>)"
    and i3: "ttl_inv (s2\<lparr>heap := h, hits := hits s2 + 1\<rparr>) (n # remove1 n xs2) ts2"
    and f: "lruFrame (heap s2) h" by blast
  let ?s3 = "s2\<lparr>heap := h, hits := hits s2 + 1\<rparr>"
  have k3: "map_of (cache ?s3) k = Some n" using s2(3) by simp
  have dead: "isExpired n (T0 + 181) ?s3" using s2(4,6) f by (simp add: isExpired_def lruFrame_def)
  from ttl_has_expired[OF i3 k3 dead] obtain s4 where
    has2: "FastCacheWithTTL_has (T0 + 181) k ?s3 = (False, s4)" "cache s4 = AList.delete k (cache ?s3)"
    by auto
  from ttl_get_expired[OF i3 k3 dead] obtain s5 where
    get2: "FastCacheWithTTL_get (T0 + 181) k ?s3 = Inr (None, s5)" "cache s5 = AList.delete k (cache ?s3)"
    by auto
  have "map_of (cache s4) k = None" "map_of (cache s5) k = None"
    unfolding has2(2) get2(2) by (simp_all add: AList.delete_conv')
  with s1(1) s2(1,5) has1 g has2(1) get2(1)
  show "\<exists>s1 s2 s3 s4 s5.
              FastCacheWithTTL_set T0 k v1 s = Inr s1 \<and>
              FastCacheWithTTL_set (T0 + 80) k v2 s1 = Inr s2 \<and>
              FastCacheWithTTL_has (T0 + 130) k s2 = (True, s2) \<and>
              FastCacheWithTTL_get (T0 + 130) k s2 = Inr (Some v2, s3) \<and>
              FastCacheWithTTL_has (T0 + 181) k s3 = (False, s4) \<and> map_of (cache s4) k = None \<and>
              FastCacheWithTTL_get (T0 + 181) k s3 = Inr (None, s5) \<and> map_of (cache s5) k = None"
    by (intro exI[of _ s1] exI[of _ s2] exI[of _ ?s3] exI[of _ s4] exI[of _ s5]) simp
qed

theorem ttl_refresh_on_overwrite_witness:
  "\<exists>s0 s. (FastCacheWithTTL_new \<lparr>opt_maxSize = 3, opt_ttl = Some 100, opt_autoCleanup = Some False,
              opt_cleanupInterval = None\<rparr> :: error + (string, nat) fastCacheWithTTL) = Inr s0 \<and>
     ttlExec [TSet 7 ''key1'' 1, TSet 9 ''key2'' 5] s0 = Done s \<and> 0 < ttl s \<and> ttl s = 100 \<and>
     map_of (cache s) ''key1'' = Some (Obj 0) \<and> timeList s = Some [Obj 0, Obj 1] \<and>
     (\<exists>s'. FastCacheWithTTL_set 87 ''key1'' 10 s = Inr s' \<and>
           timestamp (heap s' (Obj 0)) = Some 87 \<and> timeList s' = Some [Obj 1, Obj 0] \<and>
           \<not> isExpired (Obj 0) 137 s' \<and> isExpired (Obj 0) 188 s') \<and>
     (\<exists>s1 s2 s3 s4 s5.
        FastCacheWithTTL_set 1000 ''key1'' 1 s = Inr s1 \<and>
        FastCacheWithTTL_set 1080 ''key1'' 10 s1 = Inr s2 \<and>
        FastCacheWithTTL_has 1130 ''key1'' s2 = (True, s2) \<and>
        FastCacheWithTTL_get 1130 ''key1'' s2 = Inr (Some 10, s3) \<and>
        FastCacheWithTTL_has 1181 ''key1'' s3 = (False, s4) \<and>
        FastCacheWithTTL_get 1181 ''key1'' s3 = Inr (None, s5))"
proof -
  obtain s0 :: "(string, nat) fastCacheWithTTL" and s where
    1: "FastCacheWithTTL_new \<lparr>opt_maxSize = 3, opt_ttl = Some 100, opt_autoCleanup = Some False,
              opt_cleanupInterval = None\<rparr> = Inr s0"
       "ttlExec [TSet 7 ''key1'' 1, TSet 9 ''key2'' 5] s0 = Done s"
    and 2: "0 < ttl s" and 3: "ttl s = 100" "map_of (cache s) ''key1'' = Some (Obj 0)"
       "timeList s = Some [Obj 0, Obj 1]"
    by (simp add: cache_defs setter_defs observer_defs emptyObj_def Let_def)
  note th = ttl_refresh_on_overwrite[OF 1 2]
  from th[of "''key1''" 87 10 1000 1 10] 3
  have a: "\<exists>s'. FastCacheWithTTL_set 87 ''key1'' 10 s = Inr s' \<and>
           timestamp (heap s' (Obj 0)) = Some 87 \<and> timeList s' = Some [Obj 1, Obj 0] \<and>
           \<not> isExpired (Obj 0) 137 s' \<and> isExpired (Obj 0) 188 s'"
    by auto
  from th[of "''key1''" 87 10 1000 1 10] 3(1)
  obtain s1 s2 s3 s4 s5 where
        "FastCacheWithTTL_set 1000 ''key1'' 1 s = Inr s1"
        "FastCacheWithTTL_set (1000 + 80) ''key1'' 10 s1 = Inr s2"
        "FastCacheWithTTL_has (1000 + 130) ''key1'' s2 = (True, s2)"
        "FastCacheWithTTL_get (1000 + 130) ''key1'' s2 = Inr (Some 10, s3)"
        "FastCacheWithTTL_has (1000 + 181) ''key1'' s3 = (False, s4)"
        "FastCacheWithTTL_get (1000 + 181) ''key1'' s3 = Inr (None, s5)"
    by blast
  then have b: "\<exists>s1 s2 s3 s4 s5.
        FastCacheWithTTL_set 1000 ''key1'' 1 s = Inr s1 \<and>
        FastCacheWithTTL_set 1080 ''key1'' 10 s1 = Inr s2 \<and>
        FastCacheWithTTL_has 1130 ''key1'' s2 = (True, s2) \<and>
        FastCacheWithTTL_get 1130 ''key1'' s2 = Inr (Some 10, s3) \<and>
        FastCacheWithTTL_has 1181 ''key1'' s3 = (False, s4) \<and>
        FastCacheWithTTL_get 1181 ''key1'' s3 = Inr (None, s5)"
    by (intro exI[of _ s1] exI[of _ s2] exI[of _ s3] exI[of _ s4] exI[of _ s5]) simp
  from 1 2 3 a b show ?thesis by blast
qed

text \<open>
  C8. In every reachable state, \<open>get\<close> of a present key that is not expired returns its
  value, leaves every timestamp and every link of the time list as it was (so the node
  expires exactly when it would have without the call), moves the node to the head of the
  recency list, and adds one to \<open>hits\<close>.
\<close>

theorem get_never_renews_ttl:
  assumes new: "FastCacheWithTTL_new opts = Inr s0" and run: "ttlExec ops s0 = Done s"
    and k: "map_of (cache s) k = Some n" and live: "\<not> isExpired n now s"
  shows "\<exists>s' v xs ts.
     FastCacheWithTTL_get now k s = Inr (Some v, s') \<and> val (heap s n) = Some v \<and>
     (\<forall>r. timestamp (heap s' r) = timestamp (heap s r) \<and>
          timePrev (heap s' r) = timePrev (heap s r) \<and>
          timeNext (heap s' r) = timeNext (heap s r)) \<and>
     (\<forall>later. isExpired n later s' = isExpired n later s) \<and>
     timeList s = Some ts \<and> timeList s' = Some ts \<and> n \<in> set ts \<and>
     lruList s = Some xs \<and> lruList s' = Some (n # remove1 n xs) \<and>
     hits s' = hits s + 1 \<and> misses s' = misses s \<and> expired s' = expired s"
proof -
  from ttl_reachable_inv[OF new run] obtain xs ts where inv: "ttl_inv s xs ts" by blast
  from ttl_inv_node[OF inv k] obtain v where n: "n \<in> set ts" and v: "val (heap s n) = Some v"
    by blast
  from ttl_get_live[OF inv k live] obtain h where
    g: "FastCacheWithTTL_get now k s = Inr (val (heap s n), s\<lparr>heap := h, hits := hits s + 1\<rparr>)"
    and i': "ttl_inv (s\<lparr>heap := h, hits := hits s + 1\<rparr>) (n # remove1 n xs) ts"
    and f: "lruFrame (heap s) h" by blast
  let ?s' = "s\<lparr>heap := h, hits := hits s + 1\<rparr>"
  have lx: "lruList s = Some xs" using inv by (simp add: ttl_inv_def lruList_inv)
  have lt: "timeList s = Some ts" by (rule timeList_inv[OF inv])
  have "lru_inv ?s' (n # remove1 n xs)" using i' by (simp add: ttl_inv_def)
  then have lx': "lruList ?s' = Some (n # remove1 n xs)" by (rule lruList_inv)
  have lt': "timeList ?s' = Some ts" by (rule timeList_inv[OF i'])
  have fr: "\<forall>r. timestamp (heap ?s' r) = timestamp (heap s r) \<and>
          timePrev (heap ?s' r) = timePrev (heap s r) \<and>
          timeNext (heap ?s' r) = timeNext (heap s r)"
    using f by (simp add: lruFrame_def)
  have ex: "\<forall>later. isExpired n later ?s' = isExpired n later s"
    using f by (auto simp: isExpired_def lruFrame_def)
  show ?thesis
    using g v fr ex lt lt' n lx lx'
    by (intro exI[of _ ?s'] exI[of _ v] exI[of _ xs] exI[of _ ts]) simp
qed

theorem get_never_renews_ttl_witness:
  "\<exists>s0 s. (FastCacheWithTTL_new \<lparr>opt_maxSize = 3, opt_ttl = Some 100, opt_autoCleanup = None,
              opt_cleanupInterval = None\<rparr> :: error + (string, nat) fastCacheWithTTL) = Inr s0 \<and>
     ttlExec [TSet 0 ''a'' 1, TSet 10 ''b'' 2] s0 = Done s \<and>
     map_of (cache s) ''a'' = Some (Obj 0) \<and> \<not> isExpired (Obj 0) 60 s \<and>
     (\<exists>s'. FastCacheWithTTL_get 60 ''a'' s = Inr (Some 1, s') \<and>
        timestamp (heap s' (Obj 0)) = Some 0 \<and>
        timeList s' = Some [Obj 0, Obj 1] \<and> lruList s = Some [Obj 1, Obj 0] \<and>
        lruList s' = Some [Obj 0, Obj 1] \<and> hits s' = hits s + 1 \<and>
        isExpired (Obj 0) 101 s')"
proof -
  obtain s0 :: "(string, nat) fastCacheWithTTL" and s where
    1: "FastCacheWithTTL_new \<lparr>opt_maxSize = 3, opt_ttl = Some 100, opt_autoCleanup = None,
              opt_cleanupInterval = None\<rparr> = Inr s0"
       "ttlExec [TSet 0 ''a'' 1, TSet 10 ''b'' 2] s0 = Done s"
    and 2: "map_of (cache s) ''a'' = Some (Obj 0)" "\<not> isExpired (Obj 0) 60 s"
    and 3: "timestamp (heap s (Obj 0)) = Some 0" "val (heap s (Obj 0)) = Some 1"
       "timeList s = Some [Obj 0, Obj 1]" "lruList s = Some [Obj 1, Obj 0]"
       "isExpired (Obj 0) 101 s"
    by (simp add: cache_defs setter_defs observer_defs emptyObj_def Let_def)
  from get_never_renews_ttl[OF 1 2] 3
  have "\<exists>s'. FastCacheWithTTL_get 60 ''a'' s = Inr (Some 1, s') \<and>
        timestamp (heap s' (Obj 0)) = Some 0 \<and>
        timeList s' = Some [Obj 0, Obj 1] \<and> lruList s = Some [Obj 1, Obj 0] \<and>
        lruList s' = Some [Obj 0, Obj 1] \<and> hits s' = hits s + 1 \<and>
        isExpired (Obj 0) 101 s'"
    by auto
  with 1 2 show ?thesis by blast
qed

section \<open>Further properties\<close>

text \<open>
  The constructors fail exactly for a capacity \<open>\<le> 0\<close> and, for the TTL cache, for a
  \<open>ttl\<close> that is given and \<open>\<le> 0\<close>, with these messages.
\<close>

theorem constructor_errors:
  "FastCacheWithTTL_new opts =
     (if opt_maxSize opts \<le> 0 then Inl (Error ''Cache size must be positive'')
      else if (\<exists>t. opt_ttl opts = Some t \<and> t \<le> 0) then Inl (Error ''TTL must be positive'')
      else Inr (projr (FastCacheWithTTL_new opts))) \<and>
   FastCache_new c =
     (if c \<le> 0 then Inl (Error ''Cache size must be positive'') else Inr (projr (FastCache_new c)))"
  by (auto simp: FastCacheWithTTL_new_def FastCache_new_def Let_def)

text \<open>
  Once constructed, no operation throws: the non-null assertions in \<open>addToHead\<close>,
  \<open>_addToTimeListTail\<close> and \<open>set\<close> never meet a null pointer.
\<close>

theorem runs_never_throw:
  "(FastCache_new c = Inr b0 \<longrightarrow> (\<exists>rs b. exec bops b0 = Inr (rs, b))) \<and>
   (FastCacheWithTTL_new opts = Inr s0 \<longrightarrow> (\<forall>e. ttlExec ops s0 \<noteq> Threw e))"
proof (intro conjI impI)
  assume "FastCache_new c = Inr b0"
  from lru_new_inv[OF this] have "lru_inv b0 []" by simp
  from exec_inv[OF this, of bops] show "\<exists>rs b. exec bops b0 = Inr (rs, b)" by blast
next
  assume "FastCacheWithTTL_new opts = Inr s0"
  from ttl_new_inv[OF this] have "ttl_inv s0 [] []" by simp
  from ttlExec_inv[OF this, of ops] show "\<forall>e. ttlExec ops s0 \<noteq> Threw e" by blast
qed

theorem runs_never_throw_witness:
  "\<exists>b0 s0. (FastCache_new 1 :: error + (string, nat) fastCache) = Inr b0 \<and>
     (\<exists>rs b. exec [Set ''a'' 1, Set ''b'' 2, Get ''a'', Delete ''b'', Clear] b0 = Inr (rs, b)) \<and>
     (FastCacheWithTTL_new \<lparr>opt_maxSize = 1, opt_ttl = Some 10, opt_autoCleanup = None,
        opt_cleanupInterval = None\<rparr> :: error + (string, nat) fastCacheWithTTL) = Inr s0 \<and>
     (\<forall>e. ttlExec [TSet 0 ''a'' 1, TSet 0 ''b'' 2, TGet 5 ''a'', TCleanup 50, TClear] s0 \<noteq> Threw e)"
proof -
  obtain b0 :: "(string, nat) fastCache" where b0: "FastCache_new 1 = Inr b0"
    by (simp add: FastCache_new_def)
  obtain s0 :: "(string, nat) fastCacheWithTTL" where s0: "FastCacheWithTTL_new \<lparr>opt_maxSize = 1, opt_ttl = Some 10, opt_autoCleanup = None,
        opt_cleanupInterval = None\<rparr> = Inr s0"
    by (simp add: cache_defs Let_def)
  from runs_never_throw[of 1 b0 "[Set ''a'' 1, Set ''b'' 2, Get ''a'', Delete ''b'', Clear]" _ s0
      "[TSet 0 ''a'' 1, TSet 0 ''b'' 2, TGet 5 ''a'', TCleanup 50, TClear]"] b0 s0
  show ?thesis by blast
qed

text \<open>
  What does hold of the two lists in every state a TTL cache reaches: both are well formed
  and free of repetitions, the recency list holds exactly the nodes of the index, each
  under its own key and with a value and a timestamp, every node of the recency list is in
  the time list, and the size is the length of the recency list and at most the capacity.
\<close>

theorem reachable_lists_consistent:
  assumes new: "FastCacheWithTTL_new opts = Inr s0" and run: "ttlExec ops s0 = Done s"
  shows "\<exists>xs ts.
     lruList s = Some xs \<and> timeList s = Some ts \<and> distinct xs \<and> distinct ts \<and>
     set xs = snd ` set (cache s) \<and> set xs \<subseteq> set ts \<and>
     distinct (map fst (cache s)) \<and> distinct (map snd (cache s)) \<and>
     list_all (\<lambda>(k, r). key (heap s r) = Some k \<and> val (heap s r) \<noteq> None \<and>
                        timestamp (heap s r) \<noteq> None) (cache s) \<and>
     size_of s = length xs \<and> int (size_of s) \<le> capacity s"
proof -
  from ttl_reachable_inv[OF new run] obtain xs ts where inv: "ttl_inv s xs ts" by blast
  then have li: "lru_inv s xs" by (simp add: ttl_inv_def)
  have "lruList s = Some xs" by (rule lruList_inv[OF li])
  moreover have "timeList s = Some ts" by (rule timeList_inv[OF inv])
  moreover have "size_of s = length xs" using lru_inv_length[OF li] by (simp add: size_of_def)
  moreover have "list_all (\<lambda>(k, r). key (heap s r) = Some k \<and> val (heap s r) \<noteq> None \<and>
                        timestamp (heap s r) \<noteq> None) (cache s)"
    using inv unfolding ttl_inv_def lru_inv_def list_all_iff by force
  ultimately show ?thesis
    using inv by (intro exI[of _ xs] exI[of _ ts]) (auto simp: ttl_inv_def lru_inv_def list_all_iff size_of_def capacity_def)
qed

theorem reachable_lists_consistent_witness:
  "\<exists>s0 s. (FastCacheWithTTL_new \<lparr>opt_maxSize = 2, opt_ttl = Some 60000, opt_autoCleanup = None,
        opt_cleanupInterval = None\<rparr> :: error + (string, nat) fastCacheWithTTL) = Inr s0 \<and>
     ttlExec [TSet 0 ''a'' 1, TSet 0 ''b'' 2, TSet 0 ''c'' 3] s0 = Done s \<and>
     (\<exists>xs ts. lruList s = Some xs \<and> timeList s = Some ts \<and> distinct xs \<and> distinct ts \<and>
        set xs = snd ` set (cache s) \<and> set xs \<subseteq> set ts \<and> size_of s = length xs \<and>
        int (size_of s) \<le> capacity s)"
proof -
  obtain s0 :: "(string, nat) fastCacheWithTTL" and s where
    1: "FastCacheWithTTL_new \<lparr>opt_maxSize = 2, opt_ttl = Some 60000, opt_autoCleanup = None,
        opt_cleanupInterval = None\<rparr> = Inr s0"
       "ttlExec [TSet 0 ''a'' 1, TSet 0 ''b'' 2, TSet 0 ''c'' 3] s0 = Done s"
    by (simp add: cache_defs setter_defs emptyObj_def Let_def)
  from reachable_lists_consistent[OF 1] 1 show ?thesis by blast
qed

text \<open>
  The sweep where the time list holds no node but the recency list's and is sorted by
  timestamp: \<open>cleanup\<close> returns the number of expired entries, which are a prefix of
  the time list, removes exactly them from the index and from both lists, and adds their
  number to \<open>expired\<close>.
\<close>

theorem cleanup_sweeps_expired_prefix:
  assumes new: "FastCacheWithTTL_new opts = Inr s0" and run: "ttlExec ops s0 = Done s"
    and en: "0 < ttl s"
    and lx: "lruList s = Some xs" and lt: "timeList s = Some ts"
    and nd: "set ts \<subseteq> set xs" and srt: "sorted (map (stampOf s) ts)"
  shows "\<exists>s'. cleanup now s = Some (length (takeWhile (\<lambda>r. isExpired r now s) ts), s') \<and>
      takeWhile (\<lambda>r. isExpired r now s) ts = filter (\<lambda>r. isExpired r now s) ts \<and>
      cache s' = filter (\<lambda>(k, r). \<not> isExpired r now s) (cache s) \<and>
      lruList s' = Some (filter (\<lambda>r. \<not> isExpired r now s) xs) \<and>
      timeList s' = Some (dropWhile (\<lambda>r. isExpired r now s) ts) \<and>
      size_of s' + length (takeWhile (\<lambda>r. isExpired r now s) ts) = size_of s \<and>
      expired s' = expired s + length (takeWhile (\<lambda>r. isExpired r now s) ts) \<and>
      hits s' = hits s \<and> misses s' = misses s"
proof -
  let ?E = "\<lambda>r. isExpired r now s"
  from ttl_reachable_inv[OF new run] obtain xs0 ts0 where inv0: "ttl_inv s xs0 ts0" by blast
  have "lruList s = Some xs0" using inv0 by (simp add: ttl_inv_def lruList_inv)
  moreover have "timeList s = Some ts0" by (rule timeList_inv[OF inv0])
  ultimately have inv: "ttl_inv s xs ts" using lx lt inv0 by simp
  from inv have li: "lru_inv s xs" and dt: "distinct ts" and sub: "set xs \<subseteq> set ts"
    and st: "\<forall>r \<in> set xs. timestamp (heap s r) \<noteq> None"
    by (auto simp: ttl_inv_def list_all_iff)
  from li have dx: "distinct xs" by (simp add: lru_inv_def)
  from en have nz: "ttl s \<noteq> 0" by simp
  have ex: "?E r \<longleftrightarrow> ttl s < now - stampOf s r" if "r \<in> set ts" for r
  proof -
    from that nd st have "timestamp (heap s r) \<noteq> None" by blast
    then show ?thesis by (rule isExpired_stamp[OF nz])
  qed
  have anti: "\<forall>x \<in> set ts. \<forall>y \<in> set ts. stampOf s x \<le> stampOf s y \<longrightarrow> ?E y \<longrightarrow> ?E x"
  proof (intro ballI impI)
    fix x y assume "x \<in> set ts" "y \<in> set ts" "stampOf s x \<le> stampOf s y" "?E y"
    then show "?E x" using ex[of x] ex[of y] by linarith
  qed
  from sorted_prefix[OF srt anti] have tw: "takeWhile ?E ts = filter ?E ts"
    and dw: "dropWhile ?E ts = filter (\<lambda>r. \<not> ?E r) ts" by simp_all
  from cleanupLoop_sweep[OF inv nd srt nz, of now 0] obtain s' where
    r: "cleanupLoop now 0 s = Some (length (filter ?E ts), s')"
    "ttl_inv s' (filter (\<lambda>r. \<not> ?E r) xs) (filter (\<lambda>r. \<not> ?E r) ts)"
    "cache s' = filter (\<lambda>(k, r). \<not> ?E r) (cache s)"
    "expired s' = expired s + length (filter ?E ts)" "hits s' = hits s" "misses s' = misses s"
    by auto
  have c: "cleanup now s = Some (length (filter ?E ts), s')" using r(1) nz by (simp add: cleanup_def)
  have l1: "lruList s' = Some (filter (\<lambda>r. \<not> ?E r) xs)"
    using r(2) by (simp add: ttl_inv_def lruList_inv)
  have l2: "timeList s' = Some (filter (\<lambda>r. \<not> ?E r) ts)" by (rule timeList_inv[OF r(2)])
  have "lru_inv s' (filter (\<lambda>r. \<not> ?E r) xs)" using r(2) by (simp add: ttl_inv_def)
  then have n1: "length (cache s') = length (filter (\<lambda>r. \<not> ?E r) xs)" by (rule lru_inv_length)
  have n2: "length (cache s) = length xs" by (rule lru_inv_length[OF li])
  have "set xs = set ts" using sub nd by auto
  then have "length (filter ?E xs) = length (filter ?E ts)"
    using dx dt by (simp add: distinct_length_filter)
  moreover have "length (filter ?E xs) + length (filter (\<lambda>r. \<not> ?E r) xs) = length xs"
    by (rule sum_length_filter_compl)
  ultimately have sz: "size_of s' + length (filter ?E ts) = size_of s"
    using n1 n2 by (simp add: size_of_def)
  show ?thesis
    unfolding tw dw by (intro exI[of _ s'] conjI refl c r(3-6) l1 l2 sz)
qed

theorem cleanup_sweeps_expired_prefix_witness:
  "\<exists>s0 s. (FastCacheWithTTL_new \<lparr>opt_maxSize = 3, opt_ttl = Some 100, opt_autoCleanup = Some False,
              opt_cleanupInterval = None\<rparr> :: error + (string, nat) fastCacheWithTTL) = Inr s0 \<and>
     ttlExec [TSet 0 ''key1'' 1, TSet 0 ''key2'' 2, TSet 120 ''key3'' 3] s0 = Done s \<and>
     0 < ttl s \<and> lruList s = Some [Obj 2, Obj 1, Obj 0] \<and> timeList s = Some [Obj 0, Obj 1, Obj 2] \<and>
     set [Obj 0, Obj 1, Obj 2] \<subseteq> set [Obj 2, Obj 1, Obj 0] \<and>
     sorted (map (stampOf s) [Obj 0, Obj 1, Obj 2]) \<and>
     (\<exists>s'. cleanup 150 s = Some (2, s') \<and> map fst (cache s') = [''key3''] \<and>
           lruList s' = Some [Obj 2] \<and> timeList s' = Some [Obj 2] \<and> size_of s' = 1 \<and>
           expired s' = expired s + 2)"
proof -
  obtain s0 :: "(string, nat) fastCacheWithTTL" and s where
    1: "FastCacheWithTTL_new \<lparr>opt_maxSize = 3, opt_ttl = Some 100, opt_autoCleanup = Some False,
              opt_cleanupInterval = None\<rparr> = Inr s0"
       "ttlExec [TSet 0 ''key1'' 1, TSet 0 ''key2'' 2, TSet 120 ''key3'' 3] s0 = Done s"
    and 2: "0 < ttl s" "lruList s = Some [Obj 2, Obj 1, Obj 0]" "timeList s = Some [Obj 0, Obj 1, Obj 2]"
      "set [Obj 0, Obj 1, Obj 2] \<subseteq> set [Obj 2, Obj 1, Obj 0]"
      "sorted (map (stampOf s) [Obj 0, Obj 1, Obj 2])"
    and 3: "isExpired (Obj 0) 150 s" "isExpired (Obj 1) 150 s" "\<not> isExpired (Obj 2) 150 s"
      "cache s = [(''key1'', Obj 0), (''key2'', Obj 1), (''key3'', Obj 2)]"
    by (simp add: cache_defs setter_defs observer_defs stampOf_def emptyObj_def Let_def)
  from cleanup_sweeps_expired_prefix[OF 1 2, of 150] 3
  have "\<exists>s'. cleanup 150 s = Some (2, s') \<and> map fst (cache s') = [''key3''] \<and>
           lruList s' = Some [Obj 2] \<and> timeList s' = Some [Obj 2] \<and> size_of s' = 1 \<and>
           expired s' = expired s + 2"
    by (auto simp: size_of_def)
  with 1 2 show ?thesis by (intro exI[of _ s0] exI[of _ s]) (simp only: simp_thms)
qed

text \<open>
  The LRU core meets its contract: every run on a fresh cache of capacity \<open>c > 0\<close>
  returns, gives the results the list of entries gives, and ends with the recency list
  holding exactly the entries of that list, in its order.
\<close>

theorem lru_refines_contract:
  assumes c: "0 < c"
  shows "\<exists>s0 rs s.
     FastCache_new c = Inr s0 \<and> exec ops s0 = Inr (rs, s) \<and>
     rs = fst (spec_exec c ops []) \<and> lruEntries s = Some (snd (spec_exec c ops []))"
proof -
  obtain s0 :: "('a, 'b) fastCache" where s0: "FastCache_new c = Inr s0"
    using c by (simp add: FastCache_new_def)
  from lru_new_inv[OF s0] have i0: "lru_inv s0 []" and m: "maxSize s0 = c" by simp_all
  from exec_inv[OF i0, of ops] obtain rs s where ex: "exec ops s0 = Inr (rs, s)" by auto
  from exec_refines[OF i0 ex] m obtain xs where
    x: "lru_inv s xs" "spec_exec c ops [] = (rs, map (ent s) xs)" by auto
  from lruEntries_inv[OF x(1)] x(2) s0 ex show ?thesis by (intro exI[of _ s0] exI[of _ rs] exI[of _ s]) simp
qed

theorem lru_refines_contract_witness:
  "(0::int) < 3 \<and>
   (\<exists>s0 rs s. (FastCache_new 3 :: error + (string, nat) fastCache) = Inr s0 \<and>
      exec [Set ''A'' 1, Set ''B'' 2, Set ''C'' 3, Get ''A'', Set ''D'' 4, Get ''B''] s0 = Inr (rs, s) \<and>
      rs = [RUnit, RUnit, RUnit, RValue (Some 1), RUnit, RValue None] \<and>
      lruEntries s = Some [(''D'', 4), (''A'', 1), (''C'', 3)])"
proof -
  have e: "spec_exec 3 [Set ''A'' (1::nat), Set ''B'' 2, Set ''C'' 3, Get ''A'', Set ''D'' 4, Get ''B''] [] =
        ([RUnit, RUnit, RUnit, RValue (Some 1), RUnit, RValue None], [(''D'', 4), (''A'', 1), (''C'', 3)])"
    by (simp add: spec_set_def spec_get_def)
  from lru_refines_contract[of 3 "[Set ''A'' (1::nat), Set ''B'' 2, Set ''C'' 3, Get ''A'', Set ''D'' 4, Get ''B'']"]
  show ?thesis unfolding e by simp
qed

text \<open>
  With TTL disabled (no \<open>ttl\<close> option, so \<open>ttl = 0\<close>) the cache behaves as the plain LRU
  cache: in every reachable state no node is ever expired, \<open>get\<close> on a present key is a
  hit, \<open>has\<close> is true, \<open>cleanup\<close> returns 0 and changes nothing, and \<open>set\<close> stamps the
  node with 0.
\<close>

theorem ttl_disabled_is_plain_lru:
  assumes new: "FastCacheWithTTL_new opts = Inr s0" and run: "ttlExec ops s0 = Done s"
    and off: "ttl s = 0" and k: "map_of (cache s) k = Some n"
  shows "\<not> isExpired n now s \<and>
     (\<exists>s' v. FastCacheWithTTL_get now k s = Inr (Some v, s') \<and> val (heap s n) = Some v \<and>
        hits s' = hits s + 1 \<and> misses s' = misses s \<and> expired s' = expired s) \<and>
     FastCacheWithTTL_has now k s = (True, s) \<and>
     cleanup now s = Some (0, s) \<and>
     (\<exists>s'. FastCacheWithTTL_set now k v s = Inr s' \<and> timestamp (heap s' n) = Some 0)"
proof -
  from ttl_reachable_inv[OF new run] obtain xs ts where inv: "ttl_inv s xs ts" by blast
  have live: "\<not> isExpired n now s" using off by (simp add: isExpired_def)
  from ttl_inv_node[OF inv k] obtain v0 where v0: "val (heap s n) = Some v0" by blast
  from ttl_get_live[OF inv k live] obtain h where
    "FastCacheWithTTL_get now k s = Inr (val (heap s n), s\<lparr>heap := h, hits := hits s + 1\<rparr>)"
    by blast
  with v0 have g: "\<exists>s' v. FastCacheWithTTL_get now k s = Inr (Some v, s') \<and> val (heap s n) = Some v \<and>
        hits s' = hits s + 1 \<and> misses s' = misses s \<and> expired s' = expired s"
    by (intro exI[of _ "s\<lparr>heap := h, hits := hits s + 1\<rparr>"] exI[of _ v0]) simp
  from ttl_set_existing[OF inv k, of now v] off obtain h' where
    "FastCacheWithTTL_set now k v s = Inr (s\<lparr>heap := h'\<rparr>)" "timestamp (h' n) = Some 0"
    by auto
  then have st: "\<exists>s'. FastCacheWithTTL_set now k v s = Inr s' \<and> timestamp (heap s' n) = Some 0"
    by (intro exI[of _ "s\<lparr>heap := h'\<rparr>"]) simp
  have "cleanup now s = Some (0, s)" using off by (simp add: cleanup_def)
  with live g st ttl_has_live[OF k live] show ?thesis by blast
qed

theorem ttl_disabled_is_plain_lru_witness:
  "\<exists>s0 s. (FastCacheWithTTL_new \<lparr>opt_maxSize = 3, opt_ttl = None, opt_autoCleanup = None,
        opt_cleanupInterval = None\<rparr> :: error + (string, nat) fastCacheWithTTL) = Inr s0 \<and>
     ttlExec [TSet 1000 ''x'' 1] s0 = Done s \<and> ttl s = 0 \<and>
     map_of (cache s) ''x'' = Some (Obj 0) \<and> timestamp (heap s (Obj 0)) = Some 0 \<and>
     (\<exists>s'. FastCacheWithTTL_get 999999 ''x'' s = Inr (Some 1, s') \<and> hits s' = hits s + 1) \<and>
     cleanup 999999 s = Some (0, s)"
proof -
  obtain s0 :: "(string, nat) fastCacheWithTTL" and s where
    1: "FastCacheWithTTL_new \<lparr>opt_maxSize = 3, opt_ttl = None, opt_autoCleanup = None,
        opt_cleanupInterval = None\<rparr> = Inr s0"
       "ttlExec [TSet 1000 ''x'' 1] s0 = Done s"
    and 2: "ttl s = 0" "map_of (cache s) ''x'' = Some (Obj 0)"
    and 3: "timestamp (heap s (Obj 0)) = Some 0" "val (heap s (Obj 0)) = Some 1"
    by (simp add: cache_defs setter_defs emptyObj_def Let_def)
  from ttl_disabled_is_plain_lru[OF 1 2, of 999999] 3
  have "(\<exists>s'. FastCacheWithTTL_get 999999 ''x'' s = Inr (Some 1, s') \<and> hits s' = hits s + 1) \<and>
     cleanup 999999 s = Some (0, s)"
    by auto
  with 1 2 3 show ?thesis by blast
qed

end
